theory Spec2Isabelle
  imports Main
begin

section \<open>The main window of the desktop application (packages/main/src/mainWindow.ts)\<close>

text \<open>
  The module builds the single application window on top of a GUI host toolkit, relays
  three inter-process channels and turns a close request into minimise or hide.  The
  module's two functions, \<open>createWindow\<close> and \<open>restoreOrCreateWindow\<close>, and the six
  closures \<open>createWindow\<close> registers are embedded below.  The host toolkit is not part of
  the module; its objects (windows, the process-wide message bus \<open>ipcMain\<close>, the
  application object \<open>app\<close>, the dock, native dialogs, timers) are an explicit state, and
  each host method the module calls is a function on that state.
\<close>

subsection \<open>Values and build-time environment\<close>

type_synonym wid = nat

text \<open>
  Values that travel over the message channels.  \<open>DialogParam dialogId message\<close> is the
  object \<open>{ dialogId, message }\<close> of the two dialog requests, and
  \<open>OpenDialogReturnValue canceled filePaths\<close> is the result of the native picker.
\<close>

datatype val =
    Undefined
  | Str string
  | Num int
  | DialogParam string string
  | OpenDialogReturnValue bool "string list"

text \<open>
  \<open>isMac\<close> and \<open>isLinux\<close> are imported from \<open>./util\<close>, \<open>DEV\<close> and
  \<open>VITE_DEV_SERVER_URL\<close> come from \<open>import.meta.env\<close>, \<open>dirname\<close> is \<open>__dirname\<close>.
  \<open>URL_toString input base\<close> stands for \<open>new URL(input, base).toString()\<close> and
  \<open>join a b\<close> for \<open>path.join(a, b)\<close>; both are library functions and stay parameters.
\<close>

record env =
  isMac :: bool
  isLinux :: bool
  DEV :: bool
  VITE_DEV_SERVER_URL :: "string option"
  dirname :: string
  URL_toString :: "string \<Rightarrow> string \<Rightarrow> string"
  join :: "string \<Rightarrow> string \<Rightarrow> string"

subsection \<open>Window options (lines 26 to 51)\<close>

record BrowserWindowConstructorOptions =
  show_flag :: bool
  width :: nat
  minWidth :: nat
  minHeight :: nat
  height :: nat
  webSecurity :: bool
  nativeWindowOpen :: bool
  webviewTag :: bool
  preload :: string
  titleBarStyle :: "string option"
  frame :: "bool option"

definition browserWindowConstructorOptions :: "env \<Rightarrow> BrowserWindowConstructorOptions" where
  "browserWindowConstructorOptions e =
     (let o0 = \<lparr> show_flag = False, width = 1050, minWidth = 640, minHeight = 600,
                 height = 600, webSecurity = False, nativeWindowOpen = True,
                 webviewTag = False,
                 preload = join e (dirname e) ''../../preload/dist/index.cjs'',
                 titleBarStyle = None, frame = None \<rparr>;
          o1 = (if isMac e then o0\<lparr>titleBarStyle := Some ''hiddenInset''\<rparr> else o0);
          o2 = (if True
                then (let o3 = o1\<lparr>titleBarStyle := Some ''hidden''\<rparr>
                      in if \<not> isMac e then o3\<lparr>frame := Some False\<rparr> else o3)
                else o1)
      in o2)"

subsection \<open>Content source (lines 122 to 125)\<close>

definition pageUrl :: "env \<Rightarrow> string" where
  "pageUrl e =
     (if DEV e \<and> VITE_DEV_SERVER_URL e \<noteq> None
      then (case VITE_DEV_SERVER_URL e of Some u \<Rightarrow> u | None \<Rightarrow> [])
      else URL_toString e ''../renderer/dist/index.html'' (''file://'' @ dirname e))"

subsection \<open>Host state\<close>

text \<open>
  The closures of \<open>createWindow\<close>, each with the window handle it captured.
\<close>

datatype listener =
    ContainerStoppedListener wid
  | ReadyToShowListener wid
  | OpenFileListener wid
  | OpenFolderListener wid
  | CloseListener wid
  | BeforeQuitListener wid

datatype error = ObjectDestroyed | TypeError | LoadFailed | DialogFailed

datatype report =
    UncaughtException error
  | UnhandledRejection error
  | ActivateRejected error

text \<open>
  Host calls that succeeded, in order.  \<open>Send w channel args\<close> is
  \<open>webContents.send(channel, ...args)\<close> on window \<open>w\<close>: a message delivered to the
  content process of that window.
\<close>

datatype call =
    NewBrowserWindow wid
  | SetTimeout wid
  | Send wid string "val list"
  | Show wid
  | DockShow
  | OpenDevTools wid
  | ShowOpenDialog wid string val
  | PreventDefault
  | Minimize wid
  | Hide wid
  | DockHide
  | Destroy wid
  | LoadURL wid string
  | Restore wid
  | Focus wid

record BrowserWindow =
  options :: BrowserWindowConstructorOptions
  destroyed :: bool
  visible :: bool
  minimized :: bool
  focused :: bool
  devTools :: bool
  url :: "string option"
  listeners :: "(string \<times> listener) list"

text \<open>
  \<open>windows\<close> holds every window ever constructed, a handle being its index: closures
  keep their handle after the window is destroyed.  \<open>dialogs\<close> are the promises of
  \<open>dialog.showOpenDialog\<close>: the window and the value of \<open>param.dialogId\<close> captured by
  the suspended handler, and whether the promise is settled.  \<open>loading\<close> are the calls of
  \<open>restoreOrCreateWindow\<close> suspended at \<open>await createWindow()\<close>, \<open>timers\<close> the pending
  \<open>setTimeout\<close> callbacks.  \<open>defaultPrevented\<close> is the flag of the event object of the
  emission in progress.
\<close>

record state =
  windows :: "BrowserWindow list"
  ipcMain :: "(string \<times> listener) list"
  app :: "(string \<times> listener) list"
  dock :: bool
  timers :: "wid list"
  loading :: "wid list"
  dialogs :: "(wid \<times> val \<times> bool) list"
  defaultPrevented :: bool
  trace :: "call list"
  errors :: "report list"

definition init :: state where
  "init = \<lparr> windows = [], ipcMain = [], app = [], dock = True, timers = [],
            loading = [], dialogs = [], defaultPrevented = False, trace = [],
            errors = [] \<rparr>"

subsection \<open>Host methods\<close>

text \<open>
  A host call either completes or throws; the state it leaves is returned in both cases,
  since what a closure did before it threw stays done.
\<close>

type_synonym action = "state \<Rightarrow> error option \<times> state"

definition and_then :: "action \<Rightarrow> action \<Rightarrow> action" where
  "and_then a b st = (case a st of (None, st') \<Rightarrow> b st' | (Some e, st') \<Rightarrow> (Some e, st'))"

definition skip :: action where
  "skip st = (None, st)"

definition isDestroyed :: "state \<Rightarrow> wid \<Rightarrow> bool" where
  "isDestroyed st w = (if w < length (windows st) then destroyed (windows st ! w) else True)"

text \<open>
  Every method of a window other than \<open>destroy\<close> and \<open>isDestroyed\<close> throws
  "Object has been destroyed" on a destroyed window; so does the access to its
  \<open>webContents\<close>.  On a live window \<open>show\<close> makes the window visible and gives it
  focus, \<open>hide\<close> and \<open>minimize\<close> take the focus away, \<open>restore\<close> ends the minimised
  state and \<open>focus\<close> gives focus.  The three flags \<open>visible\<close>, \<open>minimized\<close> and
  \<open>focused\<close> are kept apart, as \<open>isVisible\<close> and \<open>isMinimized\<close> are asked apart.
\<close>

definition call_window :: "wid \<Rightarrow> call \<Rightarrow> (BrowserWindow \<Rightarrow> BrowserWindow) \<Rightarrow> action" where
  "call_window w c f st =
     (if isDestroyed st w then (Some ObjectDestroyed, st)
      else (None, st\<lparr>windows := (windows st)[w := f (windows st ! w)],
                      trace := trace st @ [c]\<rparr>))"

definition win_show :: "wid \<Rightarrow> action" where
  "win_show w = call_window w (Show w) (\<lambda>b. b\<lparr>visible := True, focused := True\<rparr>)"

definition win_hide :: "wid \<Rightarrow> action" where
  "win_hide w = call_window w (Hide w) (\<lambda>b. b\<lparr>visible := False, focused := False\<rparr>)"

definition win_minimize :: "wid \<Rightarrow> action" where
  "win_minimize w = call_window w (Minimize w) (\<lambda>b. b\<lparr>minimized := True, focused := False\<rparr>)"

definition win_restore :: "wid \<Rightarrow> action" where
  "win_restore w = call_window w (Restore w) (\<lambda>b. b\<lparr>minimized := False\<rparr>)"

definition win_focus :: "wid \<Rightarrow> action" where
  "win_focus w = call_window w (Focus w) (\<lambda>b. b\<lparr>focused := True\<rparr>)"

definition win_loadURL :: "wid \<Rightarrow> string \<Rightarrow> action" where
  "win_loadURL w u = call_window w (LoadURL w u) (\<lambda>b. b\<lparr>url := Some u\<rparr>)"

definition win_on :: "wid \<Rightarrow> string \<Rightarrow> listener \<Rightarrow> state \<Rightarrow> state" where
  "win_on w ev l st =
     st\<lparr>windows := (windows st)[w := (windows st ! w)\<lparr>listeners := listeners (windows st ! w) @ [(ev, l)]\<rparr>]\<rparr>"

definition webContents_send :: "wid \<Rightarrow> string \<Rightarrow> val list \<Rightarrow> action" where
  "webContents_send w ch args = call_window w (Send w ch args) (\<lambda>b. b)"

definition webContents_openDevTools :: "wid \<Rightarrow> action" where
  "webContents_openDevTools w = call_window w (OpenDevTools w) (\<lambda>b. b\<lparr>devTools := True\<rparr>)"

text \<open>\<open>destroy\<close> force-closes the window and does nothing on a destroyed one.\<close>

definition win_destroy :: "wid \<Rightarrow> action" where
  "win_destroy w st =
     (if isDestroyed st w then (None, st)
      else (None, st\<lparr>windows := (windows st)[w := (windows st ! w)\<lparr>destroyed := True,
                         visible := False, focused := False\<rparr>],
                      trace := trace st @ [Destroy w]\<rparr>))"

definition win_isMinimized :: "state \<Rightarrow> wid \<Rightarrow> error + bool" where
  "win_isMinimized st w =
     (if isDestroyed st w then Inl ObjectDestroyed else Inr (minimized (windows st ! w)))"

definition win_isVisible :: "state \<Rightarrow> wid \<Rightarrow> error + bool" where
  "win_isVisible st w =
     (if isDestroyed st w then Inl ObjectDestroyed else Inr (visible (windows st ! w)))"

definition dock_show :: action where
  "dock_show st = (None, st\<lparr>dock := True, trace := trace st @ [DockShow]\<rparr>)"

definition dock_hide :: action where
  "dock_hide st = (None, st\<lparr>dock := False, trace := trace st @ [DockHide]\<rparr>)"

definition preventDefault :: action where
  "preventDefault st = (None, st\<lparr>defaultPrevented := True, trace := trace st @ [PreventDefault]\<rparr>)"

text \<open>
  \<open>dialog.showOpenDialog(window, { properties: [property], message })\<close> returns a promise;
  it is settled later by the host (events \<open>DialogResolved\<close> and \<open>DialogRejected\<close> below).
  A picker the host refuses to open, whatever the reason, is a promise that is rejected.
\<close>

definition dialog_showOpenDialog :: "wid \<Rightarrow> string \<Rightarrow> val \<Rightarrow> val \<Rightarrow> action" where
  "dialog_showOpenDialog w property msg dialogId st =
     (None, st\<lparr>dialogs := dialogs st @ [(w, dialogId, False)],
                trace := trace st @ [ShowOpenDialog w property msg]\<rparr>)"

definition new_BrowserWindow :: "BrowserWindowConstructorOptions \<Rightarrow> state \<Rightarrow> wid \<times> state" where
  "new_BrowserWindow opts st =
     (length (windows st),
      st\<lparr>windows := windows st @
            [\<lparr> options = opts, destroyed = False, visible = show_flag opts,
               minimized = False, focused = False, devTools = False, url = None,
               listeners = [] \<rparr>],
         trace := trace st @ [NewBrowserWindow (length (windows st))]\<rparr>)"

definition getAllWindows :: "state \<Rightarrow> wid list" where
  "getAllWindows st = [0..<length (windows st)]"

definition setTimeout :: "wid \<Rightarrow> state \<Rightarrow> state" where
  "setTimeout w st = st\<lparr>timers := timers st @ [w], trace := trace st @ [SetTimeout w]\<rparr>"

definition ipcMain_on :: "string \<Rightarrow> listener \<Rightarrow> state \<Rightarrow> state" where
  "ipcMain_on ch l st = st\<lparr>ipcMain := ipcMain st @ [(ch, l)]\<rparr>"

definition app_on :: "string \<Rightarrow> listener \<Rightarrow> state \<Rightarrow> state" where
  "app_on ev l st = st\<lparr>app := app st @ [(ev, l)]\<rparr>"

subsection \<open>The closures registered by createWindow\<close>

definition arg :: "val list \<Rightarrow> nat \<Rightarrow> val" where
  "arg args i = (if i < length args then args ! i else Undefined)"

text \<open>Lines 60 to 62: the first argument of the listener is forwarded.\<close>

definition on_container_stopped :: "wid \<Rightarrow> val list \<Rightarrow> action" where
  "on_container_stopped w args = webContents_send w ''container-stopped-event'' [arg args 0]"

text \<open>Lines 70 to 79.\<close>

definition on_ready_to_show :: "env \<Rightarrow> wid \<Rightarrow> action" where
  "on_ready_to_show e w =
     and_then (win_show w)
       (and_then (if isMac e then dock_show else skip)
          (if DEV e then webContents_openDevTools w else skip))"

text \<open>
  Lines 82 to 89 and 92 to 99, up to the \<open>await\<close>.  The second argument is declared
  \<open>{ dialogId: string; message: string }\<close>.  Reading \<open>param.message\<close> of a missing
  argument throws; on any other value that has no such fields (a string, a number, a
  picker result) both \<open>param.message\<close> and \<open>param.dialogId\<close> are \<open>undefined\<close>, and the
  picker is opened all the same.  The handlers are \<open>async\<close>: a throw rejects their promise
  and never reaches the emitter.
\<close>

definition on_dialog_open :: "string \<Rightarrow> wid \<Rightarrow> val list \<Rightarrow> action" where
  "on_dialog_open property w args =
     (case arg args 1 of
        Undefined \<Rightarrow> (\<lambda>st. (Some TypeError, st))
      | DialogParam dialogId msg \<Rightarrow> dialog_showOpenDialog w property (Str msg) (Str dialogId)
      | _ \<Rightarrow> dialog_showOpenDialog w property Undefined Undefined)"

definition async :: "action \<Rightarrow> action" where
  "async a st =
     (case a st of
        (None, st') \<Rightarrow> (None, st')
      | (Some e, st') \<Rightarrow> (None, st'\<lparr>errors := errors st' @ [UnhandledRejection e]\<rparr>))"

text \<open>Lines 88 and 98: the rest of a dialog handler, run when its promise resolves.\<close>

definition on_dialog_response :: "wid \<Rightarrow> val \<Rightarrow> val \<Rightarrow> action" where
  "on_dialog_response w dialogId response =
     webContents_send w ''dialog:open-file-or-folder-response'' [dialogId, response]"

text \<open>Lines 101 to 111.\<close>

definition on_close :: "env \<Rightarrow> wid \<Rightarrow> action" where
  "on_close e w =
     and_then preventDefault
       (if isLinux e then win_minimize w
        else and_then (win_hide w) (if isMac e then dock_hide else skip))"

text \<open>Lines 113 to 115.\<close>

definition on_before_quit :: "wid \<Rightarrow> action" where
  "on_before_quit w = win_destroy w"

text \<open>Lines 55 to 57.\<close>

definition on_timeout :: "wid \<Rightarrow> action" where
  "on_timeout w = webContents_send w ''container-stopped-event'' [Str ''containerID'']"

fun call_listener :: "env \<Rightarrow> listener \<Rightarrow> val list \<Rightarrow> action" where
  "call_listener e (ContainerStoppedListener w) args = on_container_stopped w args"
| "call_listener e (ReadyToShowListener w) args = on_ready_to_show e w"
| "call_listener e (OpenFileListener w) args = async (on_dialog_open ''openFile'' w args)"
| "call_listener e (OpenFolderListener w) args = async (on_dialog_open ''openDirectory'' w args)"
| "call_listener e (CloseListener w) args = on_close e w"
| "call_listener e (BeforeQuitListener w) args = on_before_quit w"

text \<open>
  An emitter calls the listeners of the event synchronously, in the order of their
  registration; a listener that throws ends the emission, the exception going to the
  caller of \<open>emit\<close>.
\<close>

fun call_all :: "env \<Rightarrow> listener list \<Rightarrow> val list \<Rightarrow> action" where
  "call_all e [] args st = (None, st)"
| "call_all e (l # ls) args st =
     (case call_listener e l args st of
        (None, st') \<Rightarrow> call_all e ls args st'
      | (Some x, st') \<Rightarrow> (Some x, st'))"

definition listeners_of :: "string \<Rightarrow> (string \<times> listener) list \<Rightarrow> listener list" where
  "listeners_of ev reg = map snd (filter (\<lambda>p. fst p = ev) reg)"

definition emit :: "env \<Rightarrow> (string \<times> listener) list \<Rightarrow> string \<Rightarrow> val list \<Rightarrow> action" where
  "emit e reg ev args = call_all e (listeners_of ev reg) args"

definition uncaught :: "error option \<times> state \<Rightarrow> state" where
  "uncaught r =
     (case r of
        (None, st) \<Rightarrow> st
      | (Some x, st) \<Rightarrow> st\<lparr>errors := errors st @ [UncaughtException x]\<rparr>)"

subsection \<open>createWindow (lines 25 to 130)\<close>

text \<open>
  The function runs without interruption up to \<open>await browserWindow.loadURL(pageUrl)\<close>;
  the window it will return is the first component of the result.
\<close>

definition createWindow :: "env \<Rightarrow> state \<Rightarrow> wid \<times> state" where
  "createWindow e st =
     (let (browserWindow, s1) = new_BrowserWindow (browserWindowConstructorOptions e) st;
          s2 = setTimeout browserWindow s1;
          s3 = ipcMain_on ''container-stopped-event'' (ContainerStoppedListener browserWindow) s2;
          s4 = win_on browserWindow ''ready-to-show'' (ReadyToShowListener browserWindow) s3;
          s5 = ipcMain_on ''dialog:openFile'' (OpenFileListener browserWindow) s4;
          s6 = ipcMain_on ''dialog:openFolder'' (OpenFolderListener browserWindow) s5;
          s7 = win_on browserWindow ''close'' (CloseListener browserWindow) s6;
          s8 = app_on ''before-quit'' (BeforeQuitListener browserWindow) s7;
          s9 = snd (win_loadURL browserWindow (pageUrl e) s8)
      in (browserWindow, s9\<lparr>loading := loading s9 @ [browserWindow]\<rparr>))"

subsection \<open>restoreOrCreateWindow (lines 135 to 151)\<close>

text \<open>Lines 142 to 150, for the window found or created.\<close>

definition restore_show_focus :: "wid \<Rightarrow> action" where
  "restore_show_focus window st =
     (case win_isMinimized st window of
        Inl x \<Rightarrow> (Some x, st)
      | Inr m \<Rightarrow>
          and_then (if m then win_restore window else skip)
            (\<lambda>s. case win_isVisible s window of
                   Inl x \<Rightarrow> (Some x, s)
                 | Inr v \<Rightarrow> and_then (if \<not> v then win_show window else skip) (win_focus window) s)
            st)"

definition rejected :: "error option \<times> state \<Rightarrow> state" where
  "rejected r =
     (case r of
        (None, st) \<Rightarrow> st
      | (Some x, st) \<Rightarrow> st\<lparr>errors := errors st @ [ActivateRejected x]\<rparr>)"

text \<open>
  When a window is found the function runs to its end; otherwise it constructs one and
  is suspended until the load ends (\<open>LoadURLResolved\<close>, \<open>LoadURLRejected\<close> below).
\<close>

definition restoreOrCreateWindow :: "env \<Rightarrow> state \<Rightarrow> state" where
  "restoreOrCreateWindow e st =
     (case find (\<lambda>w. \<not> isDestroyed st w) (getAllWindows st) of
        None \<Rightarrow> snd (createWindow e st)
      | Some window \<Rightarrow> rejected (restore_show_focus window st))"

subsection \<open>The event loop\<close>

text \<open>
  The host runs one callback at a time.  An event is one turn of its loop: a call of
  \<open>restoreOrCreateWindow\<close> (\<open>Activate\<close>), the end of a load, the window events
  \<open>ready-to-show\<close> and \<open>close\<close>, which the host emits on live windows only, the
  application event \<open>before-quit\<close>, a message emitted on \<open>ipcMain\<close> with its
  arguments, the end of a picker, and the timer of line 55.
\<close>

datatype event =
    Activate
  | LoadURLResolved wid
  | LoadURLRejected wid
  | ReadyToShow wid
  | CloseRequest wid
  | BeforeQuit
  | IpcMessage string "val list"
  | DialogResolved nat bool "string list"
  | DialogRejected nat
  | TimerFired wid

text \<open>
  A close request on a live window emits \<open>close\<close> with a fresh event object; the host
  closes (destroys) the window afterwards unless the default was prevented.
\<close>

definition close_request :: "env \<Rightarrow> wid \<Rightarrow> state \<Rightarrow> state" where
  "close_request e w st =
     (if isDestroyed st w then st
      else (let s1 = uncaught (emit e (listeners (windows st ! w)) ''close'' []
                                 (st\<lparr>defaultPrevented := False\<rparr>))
            in if defaultPrevented s1 then s1 else snd (win_destroy w s1)))"

definition settle :: "nat \<Rightarrow> state \<Rightarrow> state" where
  "settle k st =
     st\<lparr>dialogs := (dialogs st)[k := (fst (dialogs st ! k), fst (snd (dialogs st ! k)), True)]\<rparr>"

definition pending :: "state \<Rightarrow> nat \<Rightarrow> bool" where
  "pending st k = (k < length (dialogs st) \<and> \<not> snd (snd (dialogs st ! k)))"

fun step :: "env \<Rightarrow> event \<Rightarrow> state \<Rightarrow> state" where
  "step e Activate st = restoreOrCreateWindow e st"
| "step e (LoadURLResolved w) st =
     (if w \<in> set (loading st)
      then rejected (restore_show_focus w (st\<lparr>loading := remove1 w (loading st)\<rparr>))
      else st)"
| "step e (LoadURLRejected w) st =
     (if w \<in> set (loading st)
      then st\<lparr>loading := remove1 w (loading st), errors := errors st @ [ActivateRejected LoadFailed]\<rparr>
      else st)"
| "step e (ReadyToShow w) st =
     (if isDestroyed st w then st
      else uncaught (emit e (listeners (windows st ! w)) ''ready-to-show'' [] st))"
| "step e (CloseRequest w) st = close_request e w st"
| "step e BeforeQuit st = uncaught (emit e (app st) ''before-quit'' [] st)"
| "step e (IpcMessage ch args) st = uncaught (emit e (ipcMain st) ch args st)"
| "step e (DialogResolved k canceled filePaths) st =
     (if pending st k
      then snd (async (on_dialog_response (fst (dialogs st ! k)) (fst (snd (dialogs st ! k)))
                         (OpenDialogReturnValue canceled filePaths)) (settle k st))
      else st)"
| "step e (DialogRejected k) st =
     (if pending st k
      then (settle k st)\<lparr>errors := errors st @ [UnhandledRejection DialogFailed]\<rparr>
      else st)"
| "step e (TimerFired w) st =
     (if w \<in> set (timers st)
      then uncaught (on_timeout w (st\<lparr>timers := remove1 w (timers st)\<rparr>))
      else st)"

definition run :: "env \<Rightarrow> event list \<Rightarrow> state \<Rightarrow> state" where
  "run e evs st = foldl (\<lambda>s ev. step e ev s) st evs"

section \<open>Invariants of the event loop\<close>

text \<open>
  Two projections of the state carry the proofs.  \<open>static\<close> is what only \<open>createWindow\<close>
  writes: the listeners on the message bus and on the application, and per window its
  options, its content source and its own listeners.  \<open>dead\<close> is the list of the
  \<open>destroyed\<close> flags.  An action is \<open>quiet\<close> when it changes neither; a state \<open>evolves\<close>
  into another when \<open>static\<close> is kept and no destroyed window comes back.

  \<open>registry e ws\<close> is the value of \<open>static\<close> after constructing the windows \<open>ws\<close> in
  that order.  The invariant \<open>wf\<close> says that \<open>static\<close> is the registry of all windows
  constructed so far and that every window but the last constructed is destroyed.
\<close>

definition static :: "state \<Rightarrow> (string \<times> listener) list \<times> (string \<times> listener) list \<times>
    (BrowserWindowConstructorOptions \<times> string option \<times> (string \<times> listener) list) list" where
  "static st = (ipcMain st, app st, map (\<lambda>b. (options b, url b, listeners b)) (windows st))"

definition dead :: "state \<Rightarrow> bool list" where
  "dead st = map destroyed (windows st)"

definition keeps :: "(BrowserWindow \<Rightarrow> BrowserWindow) \<Rightarrow> bool" where
  "keeps f = (\<forall>b. options (f b) = options b \<and> url (f b) = url b \<and>
                   listeners (f b) = listeners b \<and> destroyed (f b) = destroyed b)"

definition quiet :: "action \<Rightarrow> bool" where
  "quiet a = (\<forall>st. static (snd (a st)) = static st \<and> dead (snd (a st)) = dead st)"

definition evolves :: "state \<Rightarrow> state \<Rightarrow> bool" where
  "evolves st st' = (static st' = static st \<and> length (windows st') = length (windows st) \<and>
                     (\<forall>w. isDestroyed st w \<longrightarrow> isDestroyed st' w))"

definition registry :: "env \<Rightarrow> wid list \<Rightarrow> (string \<times> listener) list \<times> (string \<times> listener) list \<times>
    (BrowserWindowConstructorOptions \<times> string option \<times> (string \<times> listener) list) list" where
  "registry e ws =
     (concat (map (\<lambda>w. [(''container-stopped-event'', ContainerStoppedListener w),
                          (''dialog:openFile'', OpenFileListener w),
                          (''dialog:openFolder'', OpenFolderListener w)]) ws),
      map (\<lambda>w. (''before-quit'', BeforeQuitListener w)) ws,
      map (\<lambda>w. (browserWindowConstructorOptions e, Some (pageUrl e),
                 [(''ready-to-show'', ReadyToShowListener w), (''close'', CloseListener w)])) ws)"

definition wf :: "env \<Rightarrow> state \<Rightarrow> bool" where
  "wf e st = (static st = registry e [0..<length (windows st)] \<and>
              (\<forall>w. Suc w < length (windows st) \<longrightarrow> destroyed (windows st ! w)))"

subsection \<open>Sample environments\<close>

text \<open>
  Two concrete environments: a Linux production build and a Mac development build.  The
  two library functions are given by their values on this directory.
\<close>

definition linux_env :: env where
  "linux_env = \<lparr> isMac = False, isLinux = True, DEV = False, VITE_DEV_SERVER_URL = None,
       dirname = ''/opt/app/packages/main/dist'',
       URL_toString = (\<lambda>input base. ''file:///opt/app/packages/renderer/dist/index.html''),
       join = (\<lambda>a b. ''/opt/app/packages/preload/dist/index.cjs'') \<rparr>"

definition mac_dev_env :: env where
  "mac_dev_env = \<lparr> isMac = True, isLinux = False, DEV = True,
       VITE_DEV_SERVER_URL = Some ''http://localhost:3000/'',
       dirname = ''/opt/app/packages/main/dist'',
       URL_toString = (\<lambda>input base. ''file:///opt/app/packages/renderer/dist/index.html''),
       join = (\<lambda>a b. ''/opt/app/packages/preload/dist/index.cjs'') \<rparr>"

subsection \<open>Reading the record of host calls\<close>

text \<open>
  \<open>dialog_property\<close> is the picker property each dialog channel asks for.  \<open>responses d\<close>
  are the messages sent so far on the response channel whose first argument is the
  dialog id \<open>d\<close>.
\<close>

definition dialog_property :: "string \<Rightarrow> string" where
  "dialog_property ch = (if ch = ''dialog:openFile'' then ''openFile'' else ''openDirectory'')"

fun is_response :: "string \<Rightarrow> call \<Rightarrow> bool" where
  "is_response d (Send w ch (Str d' # rest)) =
     (ch = ''dialog:open-file-or-folder-response'' \<and> d' = d)"
| "is_response d c = False"

definition responses :: "string \<Rightarrow> state \<Rightarrow> call list" where
  "responses d st = filter (is_response d) (trace st)"

section \<open>Supporting lemmas\<close>

subsection \<open>Actions that keep the registry and the destroyed flags\<close>

lemma map_update_keep: "f y = f (xs ! i) \<Longrightarrow> map f (xs[i := y]) = map f xs"
  by (induction xs arbitrary: i) (auto split: nat.splits)

lemma isDestroyed_dead: "isDestroyed st w = (if w < length (dead st) then dead st ! w else True)"
  by (simp add: isDestroyed_def dead_def)

lemma length_dead [simp]: "length (dead st) = length (windows st)"
  by (simp add: dead_def)

lemma quiet_call_window: "keeps f \<Longrightarrow> quiet (call_window w c f)"
  by (simp add: quiet_def keeps_def call_window_def static_def dead_def map_update_keep)

lemma quiet_skip: "quiet skip"
  by (simp add: quiet_def skip_def)

lemma quiet_and_then: "quiet a \<Longrightarrow> quiet b \<Longrightarrow> quiet (and_then a b)"
proof -
  assume qa: "quiet a" and qb: "quiet b"
  have "static (snd (and_then a b st)) = static st \<and> dead (snd (and_then a b st)) = dead st" for st
  proof (cases "a st")
    case (Pair r st')
    with qa have *: "static st' = static st \<and> dead st' = dead st"
      unfolding quiet_def by (metis snd_conv)
    from qb have "static (snd (b st')) = static st' \<and> dead (snd (b st')) = dead st'"
      by (simp add: quiet_def)
    with * Pair show ?thesis
      by (cases r) (simp_all add: and_then_def)
  qed
  then show ?thesis by (simp add: quiet_def)
qed

lemma quiet_if: "quiet a \<Longrightarrow> quiet b \<Longrightarrow> quiet (if c then a else b)"
  by simp

lemma quiet_async: "quiet a \<Longrightarrow> quiet (async a)"
proof -
  assume q: "quiet a"
  have "static (snd (async a st)) = static st \<and> dead (snd (async a st)) = dead st" for st
  proof (cases "a st")
    case (Pair r st')
    with q have "static st' = static st \<and> dead st' = dead st"
      unfolding quiet_def by (metis snd_conv)
    with Pair show ?thesis
      by (cases r) (simp_all add: async_def static_def dead_def)
  qed
  then show ?thesis by (simp add: quiet_def)
qed

lemma quiet_win_show: "quiet (win_show w)"
  unfolding win_show_def by (rule quiet_call_window) (simp add: keeps_def)
lemma quiet_win_hide: "quiet (win_hide w)"
  unfolding win_hide_def by (rule quiet_call_window) (simp add: keeps_def)
lemma quiet_win_minimize: "quiet (win_minimize w)"
  unfolding win_minimize_def by (rule quiet_call_window) (simp add: keeps_def)
lemma quiet_win_restore: "quiet (win_restore w)"
  unfolding win_restore_def by (rule quiet_call_window) (simp add: keeps_def)
lemma quiet_win_focus: "quiet (win_focus w)"
  unfolding win_focus_def by (rule quiet_call_window) (simp add: keeps_def)
lemma quiet_send: "quiet (webContents_send w ch args)"
  unfolding webContents_send_def by (rule quiet_call_window) (simp add: keeps_def)
lemma quiet_openDevTools: "quiet (webContents_openDevTools w)"
  unfolding webContents_openDevTools_def by (rule quiet_call_window) (simp add: keeps_def)
lemma quiet_dock_show: "quiet dock_show"
  by (simp add: quiet_def dock_show_def static_def dead_def)
lemma quiet_dock_hide: "quiet dock_hide"
  by (simp add: quiet_def dock_hide_def static_def dead_def)
lemma quiet_preventDefault: "quiet preventDefault"
  by (simp add: quiet_def preventDefault_def static_def dead_def)
lemma quiet_showOpenDialog: "quiet (dialog_showOpenDialog w p m d)"
  by (simp add: quiet_def dialog_showOpenDialog_def static_def dead_def)
lemma quiet_throw: "quiet (\<lambda>st. (Some x, st))"
  by (simp add: quiet_def)

lemmas quiet_intros = quiet_skip quiet_and_then quiet_if quiet_async quiet_win_show quiet_win_hide
  quiet_win_minimize quiet_win_restore quiet_win_focus quiet_send quiet_openDevTools
  quiet_dock_show quiet_dock_hide quiet_preventDefault quiet_showOpenDialog quiet_throw

lemma quiet_on_container_stopped: "quiet (on_container_stopped w args)"
  unfolding on_container_stopped_def by (intro quiet_intros)
lemma quiet_on_ready_to_show: "quiet (on_ready_to_show e w)"
  unfolding on_ready_to_show_def by (intro quiet_intros)
lemma quiet_on_dialog_open: "quiet (on_dialog_open p w args)"
  unfolding on_dialog_open_def by (cases "arg args 1") (simp_all add: quiet_intros)
lemma quiet_on_dialog_response: "quiet (on_dialog_response w d r)"
  unfolding on_dialog_response_def by (intro quiet_intros)
lemma quiet_on_close: "quiet (on_close e w)"
  unfolding on_close_def by (intro quiet_intros)
lemma quiet_on_timeout: "quiet (on_timeout w)"
  unfolding on_timeout_def by (intro quiet_intros)

lemma quiet_restore_show_focus: "quiet (restore_show_focus w)"
proof -
  have inner: "quiet (\<lambda>s. case win_isVisible s w of Inl x \<Rightarrow> (Some x, s)
        | Inr v \<Rightarrow> and_then (if \<not> v then win_show w else skip) (win_focus w) s)"
    unfolding quiet_def
  proof
    fix s
    show "static (snd (case win_isVisible s w of Inl x \<Rightarrow> (Some x, s)
        | Inr v \<Rightarrow> and_then (if \<not> v then win_show w else skip) (win_focus w) s)) = static s \<and>
       dead (snd (case win_isVisible s w of Inl x \<Rightarrow> (Some x, s)
        | Inr v \<Rightarrow> and_then (if \<not> v then win_show w else skip) (win_focus w) s)) = dead s"
    proof (cases "win_isVisible s w")
      case (Inl x) then show ?thesis by simp
    next
      case (Inr v)
      have "quiet (and_then (if \<not> v then win_show w else skip) (win_focus w))"
        by (intro quiet_intros)
      with Inr show ?thesis by (simp add: quiet_def)
    qed
  qed
  show ?thesis
    unfolding quiet_def
  proof
    fix st
    show "static (snd (restore_show_focus w st)) = static st \<and>
          dead (snd (restore_show_focus w st)) = dead st"
    proof (cases "win_isMinimized st w")
      case (Inl x) then show ?thesis by (simp add: restore_show_focus_def)
    next
      case (Inr m)
      have "quiet (and_then (if m then win_restore w else skip) (\<lambda>s. case win_isVisible s w of Inl x \<Rightarrow> (Some x, s)
        | Inr v \<Rightarrow> and_then (if \<not> v then win_show w else skip) (win_focus w) s))"
        by (intro quiet_and_then quiet_if quiet_win_restore quiet_skip inner)
      with Inr show ?thesis by (simp add: restore_show_focus_def quiet_def)
    qed
  qed
qed

subsection \<open>Actions that may destroy windows\<close>

lemma evolves_refl: "evolves st st"
  by (simp add: evolves_def)

lemma evolves_trans: "evolves a b \<Longrightarrow> evolves b c \<Longrightarrow> evolves a c"
  by (simp add: evolves_def)

lemma quiet_evolves: "quiet a \<Longrightarrow> evolves st (snd (a st))"
proof -
  assume q: "quiet a"
  then have d: "dead (snd (a st)) = dead st" and s: "static (snd (a st)) = static st"
    by (simp_all add: quiet_def)
  from d have "length (dead (snd (a st))) = length (dead st)" by simp
  then have "length (windows (snd (a st))) = length (windows st)" by simp
  with d s show ?thesis by (simp add: evolves_def isDestroyed_dead)
qed

lemma win_destroy_evolves: "evolves st (snd (win_destroy w st))"
  by (simp add: win_destroy_def evolves_def static_def isDestroyed_def map_update_keep nth_list_update)

lemma win_destroy_isDestroyed: "isDestroyed (snd (win_destroy w st)) w"
  by (simp add: win_destroy_def isDestroyed_def)

lemma win_destroy_ok: "fst (win_destroy w st) = None"
  by (simp add: win_destroy_def)

lemma quiet_call_listener:
  "\<forall>w. l \<noteq> BeforeQuitListener w \<Longrightarrow> quiet (call_listener e l args)"
  by (cases l) (simp_all add: quiet_intros quiet_on_container_stopped quiet_on_ready_to_show
      quiet_on_dialog_open quiet_on_close)

lemma call_listener_evolves: "evolves st (snd (call_listener e l args st))"
proof (cases "\<exists>w. l = BeforeQuitListener w")
  case True
  then show ?thesis by (auto simp: on_before_quit_def win_destroy_evolves)
next
  case False
  then show ?thesis by (simp add: quiet_call_listener quiet_evolves)
qed

lemma call_all_evolves: "evolves st (snd (call_all e ls args st))"
proof (induction ls arbitrary: st)
  case Nil
  show ?case by (simp add: evolves_refl)
next
  case (Cons l ls)
  obtain r st' where c: "call_listener e l args st = (r, st')" by (cases "call_listener e l args st")
  have 1: "evolves st st'" using call_listener_evolves [of st e l args] c by simp
  show ?case
  proof (cases r)
    case None
    with c have "snd (call_all e (l # ls) args st) = snd (call_all e ls args st')" by simp
    with 1 Cons.IH [of st'] show ?thesis by (simp add: evolves_trans)
  next
    case (Some x)
    with c 1 show ?thesis by simp
  qed
qed

lemma quiet_call_all:
  "\<forall>l \<in> set ls. \<forall>w. l \<noteq> BeforeQuitListener w \<Longrightarrow> quiet (call_all e ls args)"
proof (induction ls)
  case Nil
  show ?case by (simp add: quiet_def)
next
  case (Cons l ls)
  have ql: "quiet (call_listener e l args)" using Cons.prems by (simp add: quiet_call_listener)
  have qr: "quiet (call_all e ls args)" using Cons by simp
  have "call_all e (l # ls) args = and_then (call_listener e l args) (call_all e ls args)"
    by (rule ext) (simp add: and_then_def split: prod.splits option.splits)
  with ql qr show ?case by (simp add: quiet_and_then)
qed

lemma dead_uncaught [simp]: "dead (uncaught r) = dead (snd r)"
  by (cases r) (simp add: uncaught_def dead_def split: option.splits)
lemma dead_rejected [simp]: "dead (rejected r) = dead (snd r)"
  by (cases r) (simp add: rejected_def dead_def split: option.splits)

subsection \<open>The invariant holds in every reachable state\<close>

lemma wf_init: "wf e init"
  by (simp add: wf_def init_def static_def registry_def)

lemma createWindow_eq:
  "createWindow e st =
     (length (windows st),
      st\<lparr>windows := windows st @
           [\<lparr> options = browserWindowConstructorOptions e, destroyed = False,
              visible = show_flag (browserWindowConstructorOptions e),
              minimized = False, focused = False, devTools = False,
              url = Some (pageUrl e),
              listeners = [(''ready-to-show'', ReadyToShowListener (length (windows st))),
                           (''close'', CloseListener (length (windows st)))] \<rparr>],
         ipcMain := ipcMain st @
           [(''container-stopped-event'', ContainerStoppedListener (length (windows st))),
            (''dialog:openFile'', OpenFileListener (length (windows st))),
            (''dialog:openFolder'', OpenFolderListener (length (windows st)))],
         app := app st @ [(''before-quit'', BeforeQuitListener (length (windows st)))],
         timers := timers st @ [length (windows st)],
         loading := loading st @ [length (windows st)],
         trace := trace st @ [NewBrowserWindow (length (windows st)), SetTimeout (length (windows st)),
                              LoadURL (length (windows st)) (pageUrl e)]\<rparr>)"
  by (simp add: createWindow_def Let_def new_BrowserWindow_def setTimeout_def ipcMain_on_def
      win_on_def app_on_def win_loadURL_def call_window_def isDestroyed_def)

lemma createWindow_static:
  "static st = registry e [0..<length (windows st)] \<Longrightarrow>
   static (snd (createWindow e st)) = registry e [0..<Suc (length (windows st))]"
  by (simp add: createWindow_eq static_def registry_def)

lemma createWindow_dead: "dead (snd (createWindow e st)) = dead st @ [False]"
  by (simp add: createWindow_eq dead_def)

lemma find_live_None:
  "find (\<lambda>w. \<not> isDestroyed st w) (getAllWindows st) = None \<longleftrightarrow> (\<forall>w < length (windows st). destroyed (windows st ! w))"
  by (simp add: find_None_iff getAllWindows_def isDestroyed_def)

lemma find_live_Some:
  assumes "find (\<lambda>w. \<not> isDestroyed st w) (getAllWindows st) = Some w"
  shows "w < length (windows st) \<and> \<not> destroyed (windows st ! w)"
proof -
  from assms obtain i where "i < length (getAllWindows st)"
    and "\<not> isDestroyed st (getAllWindows st ! i)" and "w = getAllWindows st ! i"
    unfolding find_Some_iff by blast
  then have "\<not> isDestroyed st w" by simp
  then show ?thesis by (simp add: isDestroyed_def split: if_splits)
qed

lemma wf_evolves:
  assumes "wf e st" and "evolves st st'"
  shows "wf e st'"
proof -
  from assms(2) have s: "static st' = static st"
    and l: "length (windows st') = length (windows st)"
    and d: "\<And>w. isDestroyed st w \<Longrightarrow> isDestroyed st' w"
    by (simp_all add: evolves_def)
  have "destroyed (windows st' ! w)" if "Suc w < length (windows st')" for w
  proof -
    from that l assms(1) have "destroyed (windows st ! w)" by (simp add: wf_def)
    with that l have "isDestroyed st w" by (simp add: isDestroyed_def)
    from d [OF this] that show ?thesis by (simp add: isDestroyed_def)
  qed
  with s l assms(1) show ?thesis by (simp add: wf_def)
qed

lemma evolves_rejected: "evolves st (snd r) \<Longrightarrow> evolves st (rejected r)"
  by (cases r) (simp add: evolves_def rejected_def static_def isDestroyed_def split: option.splits)

lemma evolves_uncaught: "evolves st (snd r) \<Longrightarrow> evolves st (uncaught r)"
  by (cases r) (simp add: evolves_def uncaught_def static_def isDestroyed_def split: option.splits)

lemma wf_createWindow:
  assumes w: "wf e st" and all: "\<forall>w < length (windows st). destroyed (windows st ! w)"
  shows "wf e (snd (createWindow e st))"
proof -
  have d: "dead (snd (createWindow e st)) = dead st @ [False]" by (rule createWindow_dead)
  have "length (dead (snd (createWindow e st))) = Suc (length (dead st))"
    unfolding d by simp
  then have len: "length (windows (snd (createWindow e st))) = Suc (length (windows st))"
    by simp
  have old: "destroyed (windows (snd (createWindow e st)) ! i)" if "i < length (windows st)" for i
  proof -
    have "dead (snd (createWindow e st)) ! i = dead st ! i"
      unfolding d using that by (simp add: nth_append)
    with that len all show ?thesis by (simp add: dead_def)
  qed
  from w have "static st = registry e [0..<length (windows st)]" by (simp add: wf_def)
  then have "static (snd (createWindow e st)) = registry e [0..<Suc (length (windows st))]"
    by (rule createWindow_static)
  with len old show ?thesis unfolding wf_def by simp
qed

lemma wf_restoreOrCreateWindow:
  assumes w: "wf e st"
  shows "wf e (restoreOrCreateWindow e st)"
proof (cases "find (\<lambda>w. \<not> isDestroyed st w) (getAllWindows st)")
  case None
  then have all: "\<forall>w < length (windows st). destroyed (windows st ! w)"
    by (simp only: find_live_None)
  from None have "restoreOrCreateWindow e st = snd (createWindow e st)"
    by (simp add: restoreOrCreateWindow_def)
  with wf_createWindow [OF w all] show ?thesis by simp
next
  case (Some x)
  have "evolves st (snd (restore_show_focus x st))"
    by (rule quiet_evolves) (rule quiet_restore_show_focus)
  then have "evolves st (rejected (restore_show_focus x st))" by (rule evolves_rejected)
  with w have "wf e (rejected (restore_show_focus x st))" by (rule wf_evolves)
  with Some show ?thesis by (simp add: restoreOrCreateWindow_def)
qed

lemma evolves_fields:
  "evolves st (st\<lparr>loading := x\<rparr>)" "evolves st (st\<lparr>timers := y\<rparr>)"
  "evolves st (st\<lparr>defaultPrevented := b\<rparr>)" "evolves st (st\<lparr>errors := z\<rparr>)"
  "evolves st (st\<lparr>dialogs := ds\<rparr>)"
  by (simp_all add: evolves_def static_def isDestroyed_def)

lemma emit_evolves: "evolves st (snd (emit e reg ev args st))"
  by (simp add: emit_def call_all_evolves)

lemma close_request_evolves: "evolves st (close_request e w st)"
proof (cases "isDestroyed st w")
  case True
  then show ?thesis by (simp add: close_request_def evolves_refl)
next
  case False
  let ?s0 = "st\<lparr>defaultPrevented := False\<rparr>"
  let ?s1 = "uncaught (emit e (listeners (windows st ! w)) ''close'' [] ?s0)"
  have "evolves ?s0 ?s1" by (rule evolves_uncaught) (rule emit_evolves)
  with evolves_fields(3) have 1: "evolves st ?s1" by (rule evolves_trans)
  have "evolves ?s1 (snd (win_destroy w ?s1))" by (rule win_destroy_evolves)
  with 1 have 2: "evolves st (snd (win_destroy w ?s1))" by (rule evolves_trans)
  from False 1 2 show ?thesis by (simp add: close_request_def Let_def)
qed

lemma step_evolves: "ev \<noteq> Activate \<Longrightarrow> evolves st (step e ev st)"
proof (cases ev)
  case Activate
  assume "ev \<noteq> Activate"
  with Activate show ?thesis by simp
next
  case (LoadURLResolved w)
  let ?s0 = "st\<lparr>loading := remove1 w (loading st)\<rparr>"
  have "evolves ?s0 (snd (restore_show_focus w ?s0))"
    by (rule quiet_evolves) (rule quiet_restore_show_focus)
  then have "evolves ?s0 (rejected (restore_show_focus w ?s0))" by (rule evolves_rejected)
  with evolves_fields(1) have "evolves st (rejected (restore_show_focus w ?s0))"
    by (rule evolves_trans)
  with LoadURLResolved show ?thesis by (simp add: evolves_refl)
next
  case (LoadURLRejected w)
  then show ?thesis by (simp add: evolves_def static_def isDestroyed_def)
next
  case (ReadyToShow w)
  have "evolves st (uncaught (emit e (listeners (windows st ! w)) ''ready-to-show'' [] st))"
    by (rule evolves_uncaught) (rule emit_evolves)
  with ReadyToShow show ?thesis by (simp add: evolves_refl)
next
  case (CloseRequest w)
  then show ?thesis by (simp add: close_request_evolves)
next
  case BeforeQuit
  have "evolves st (uncaught (emit e (app st) ''before-quit'' [] st))"
    by (rule evolves_uncaught) (rule emit_evolves)
  with BeforeQuit show ?thesis by simp
next
  case (IpcMessage ch args)
  have "evolves st (uncaught (emit e (ipcMain st) ch args st))"
    by (rule evolves_uncaught) (rule emit_evolves)
  with IpcMessage show ?thesis by simp
next
  case (DialogResolved k c fs)
  let ?a = "async (on_dialog_response (fst (dialogs st ! k)) (fst (snd (dialogs st ! k)))
              (OpenDialogReturnValue c fs))"
  have "quiet ?a" by (intro quiet_async quiet_on_dialog_response)
  then have "evolves (settle k st) (snd (?a (settle k st)))" by (rule quiet_evolves)
  moreover have "evolves st (settle k st)" by (simp add: settle_def evolves_fields)
  ultimately have "evolves st (snd (?a (settle k st)))" by (rule evolves_trans [rotated])
  with DialogResolved show ?thesis by (simp add: evolves_refl)
next
  case (DialogRejected k)
  then show ?thesis by (simp add: settle_def evolves_def static_def isDestroyed_def)
next
  case (TimerFired w)
  let ?s0 = "st\<lparr>timers := remove1 w (timers st)\<rparr>"
  have "evolves ?s0 (snd (on_timeout w ?s0))" by (rule quiet_evolves) (rule quiet_on_timeout)
  then have "evolves ?s0 (uncaught (on_timeout w ?s0))" by (rule evolves_uncaught)
  with evolves_fields(2) have "evolves st (uncaught (on_timeout w ?s0))" by (rule evolves_trans)
  with TimerFired show ?thesis by (simp add: evolves_refl)
qed

lemma wf_step: "wf e st \<Longrightarrow> wf e (step e ev st)"
proof (cases "ev = Activate")
  case True
  assume "wf e st"
  with True show ?thesis by (simp add: wf_restoreOrCreateWindow)
next
  case False
  assume "wf e st"
  moreover from False have "evolves st (step e ev st)" by (rule step_evolves)
  ultimately show ?thesis by (rule wf_evolves)
qed

lemma run_snoc: "run e (evs @ [ev]) st = step e ev (run e evs st)"
  by (simp add: run_def)

lemma wf_run: "wf e (run e evs init)"
proof (induction evs rule: rev_induct)
  case Nil
  show ?case by (simp add: run_def wf_init)
next
  case (snoc ev evs)
  then show ?case by (simp add: run_snoc wf_step)
qed

subsection \<open>What the invariant gives\<close>

lemma isDestroyed_iff:
  "isDestroyed st w \<longleftrightarrow> (w < length (windows st) \<longrightarrow> destroyed (windows st ! w))"
  by (simp add: isDestroyed_def)

lemma wf_window:
  assumes "wf e st" and "w < length (windows st)"
  shows "options (windows st ! w) = browserWindowConstructorOptions e"
    and "url (windows st ! w) = Some (pageUrl e)"
    and "listeners (windows st ! w) =
           [(''ready-to-show'', ReadyToShowListener w), (''close'', CloseListener w)]"
proof -
  let ?f = "\<lambda>b. (options b, url b, listeners b)"
  let ?g = "\<lambda>w. (browserWindowConstructorOptions e, Some (pageUrl e),
                 [(''ready-to-show'', ReadyToShowListener w), (''close'', CloseListener w)])"
  from assms(1) have "map ?f (windows st) = map ?g [0..<length (windows st)]"
    by (simp add: wf_def static_def registry_def)
  then have "map ?f (windows st) ! w = map ?g [0..<length (windows st)] ! w" by simp
  with assms(2) have "?f (windows st ! w) = ?g w" by simp
  then show "options (windows st ! w) = browserWindowConstructorOptions e"
    and "url (windows st ! w) = Some (pageUrl e)"
    and "listeners (windows st ! w) =
           [(''ready-to-show'', ReadyToShowListener w), (''close'', CloseListener w)]"
    by simp_all
qed

lemma wf_ipcMain:
  "wf e st \<Longrightarrow> ipcMain st =
     concat (map (\<lambda>w. [(''container-stopped-event'', ContainerStoppedListener w),
                        (''dialog:openFile'', OpenFileListener w),
                        (''dialog:openFolder'', OpenFolderListener w)]) [0..<length (windows st)])"
  by (simp add: wf_def static_def registry_def)

lemma wf_app:
  "wf e st \<Longrightarrow> app st = map (\<lambda>w. (''before-quit'', BeforeQuitListener w)) [0..<length (windows st)]"
  by (simp add: wf_def static_def registry_def)

lemma wf_live_last:
  assumes "wf e st" and "\<not> isDestroyed st w"
  shows "Suc w = length (windows st)"
proof -
  from assms(2) have 1: "w < length (windows st)" and 2: "\<not> destroyed (windows st ! w)"
    by (simp_all add: isDestroyed_def split: if_splits)
  from assms(1) 2 have "\<not> Suc w < length (windows st)" by (auto simp: wf_def)
  with 1 show ?thesis by simp
qed

lemma listeners_of_ipc:
  "listeners_of ''container-stopped-event''
     (concat (map (\<lambda>w. [(''container-stopped-event'', ContainerStoppedListener w),
                        (''dialog:openFile'', OpenFileListener w),
                        (''dialog:openFolder'', OpenFolderListener w)]) ws))
   = map ContainerStoppedListener ws"
  "listeners_of ''dialog:openFile''
     (concat (map (\<lambda>w. [(''container-stopped-event'', ContainerStoppedListener w),
                        (''dialog:openFile'', OpenFileListener w),
                        (''dialog:openFolder'', OpenFolderListener w)]) ws))
   = map OpenFileListener ws"
  "listeners_of ''dialog:openFolder''
     (concat (map (\<lambda>w. [(''container-stopped-event'', ContainerStoppedListener w),
                        (''dialog:openFile'', OpenFileListener w),
                        (''dialog:openFolder'', OpenFolderListener w)]) ws))
   = map OpenFolderListener ws"
  by (induction ws) (simp_all add: listeners_of_def)

lemma listeners_of_app:
  "listeners_of ''before-quit'' (map (\<lambda>w. (''before-quit'', BeforeQuitListener w)) ws)
   = map BeforeQuitListener ws"
  by (induction ws) (simp_all add: listeners_of_def)

lemma listeners_of_window:
  "listeners_of ''close'' [(''ready-to-show'', ReadyToShowListener w), (''close'', CloseListener w)]
   = [CloseListener w]"
  "listeners_of ''ready-to-show'' [(''ready-to-show'', ReadyToShowListener w), (''close'', CloseListener w)]
   = [ReadyToShowListener w]"
  by (simp_all add: listeners_of_def)

subsection \<open>The close handler\<close>

lemma on_close_linux:
  "isLinux e \<Longrightarrow> \<not> isDestroyed st w \<Longrightarrow>
   on_close e w st =
     (None, st\<lparr>windows := (windows st)[w := (windows st ! w)\<lparr>minimized := True, focused := False\<rparr>],
                defaultPrevented := True,
                trace := trace st @ [PreventDefault, Minimize w]\<rparr>)"
  by (simp add: on_close_def and_then_def preventDefault_def win_minimize_def call_window_def
      isDestroyed_iff)

lemma on_close_other:
  "\<not> isLinux e \<Longrightarrow> \<not> isDestroyed st w \<Longrightarrow>
   on_close e w st =
     (None, st\<lparr>windows := (windows st)[w := (windows st ! w)\<lparr>visible := False, focused := False\<rparr>],
                dock := (if isMac e then False else dock st),
                defaultPrevented := True,
                trace := trace st @ [PreventDefault, Hide w] @ (if isMac e then [DockHide] else [])\<rparr>)"
  by (simp add: on_close_def and_then_def preventDefault_def win_hide_def call_window_def
      isDestroyed_iff dock_hide_def skip_def)

lemma on_close_prevents: "defaultPrevented (snd (on_close e w st))"
  by (simp add: on_close_def and_then_def preventDefault_def win_hide_def win_minimize_def
      call_window_def dock_hide_def skip_def)

lemma close_request_wf:
  assumes "wf e st" and "\<not> isDestroyed st w"
  shows "close_request e w st = snd (on_close e w (st\<lparr>defaultPrevented := False\<rparr>))"
proof -
  from assms(2) have lt: "w < length (windows st)" by (simp add: isDestroyed_def split: if_splits)
  have ls: "listeners (windows st ! w) =
      [(''ready-to-show'', ReadyToShowListener w), (''close'', CloseListener w)]"
    using assms(1) lt by (rule wf_window(3))
  obtain r s where oc: "on_close e w (st\<lparr>defaultPrevented := False\<rparr>) = (r, s)"
    by (cases "on_close e w (st\<lparr>defaultPrevented := False\<rparr>)")
  have "defaultPrevented (snd (on_close e w (st\<lparr>defaultPrevented := False\<rparr>)))"
    by (rule on_close_prevents)
  with oc have p: "defaultPrevented s" by simp
  from assms(2) have live: "\<not> isDestroyed (st\<lparr>defaultPrevented := False\<rparr>) w"
    by (simp add: isDestroyed_iff)
  have "r = None"
  proof (cases "isLinux e")
    case True
    from on_close_linux [OF True live] oc show ?thesis by simp
  next
    case False
    from on_close_other [OF False live] oc show ?thesis by simp
  qed
  with assms(2) ls oc p show ?thesis
    by (simp add: close_request_def emit_def listeners_of_window uncaught_def)
qed

subsection \<open>Counting windows and destroyed flags along a run\<close>

lemma filter_all_but_last:
  assumes "\<forall>i. Suc i < length xs \<longrightarrow> P (xs ! i)"
  shows "length (filter (\<lambda>x. \<not> P x) xs) \<le> 1"
proof (cases xs rule: rev_cases)
  case Nil
  then show ?thesis by simp
next
  case (snoc ys y)
  have "P x" if "x \<in> set ys" for x
  proof -
    from that obtain i where i: "i < length ys" and x: "x = ys ! i"
      by (auto simp: in_set_conv_nth)
    with assms snoc have "P (xs ! i)" by simp
    with i x snoc show ?thesis by (simp add: nth_append)
  qed
  then have "filter (\<lambda>x. \<not> P x) ys = []" by (simp add: filter_empty_conv)
  with snoc show ?thesis by simp
qed

lemma length_restoreOrCreateWindow:
  "length (windows (restoreOrCreateWindow e st)) =
     length (windows st) + (if list_ex (\<lambda>b. \<not> destroyed b) (windows st) then 0 else 1)"
proof (cases "find (\<lambda>w. \<not> isDestroyed st w) (getAllWindows st)")
  case None
  then have all: "\<forall>w < length (windows st). destroyed (windows st ! w)"
    by (simp only: find_live_None)
  then have "\<not> list_ex (\<lambda>b. \<not> destroyed b) (windows st)"
    by (auto simp: list_ex_iff in_set_conv_nth)
  with None show ?thesis by (simp add: restoreOrCreateWindow_def createWindow_eq)
next
  case (Some w)
  then have "w < length (windows st) \<and> \<not> destroyed (windows st ! w)" by (rule find_live_Some)
  then have ex: "list_ex (\<lambda>b. \<not> destroyed b) (windows st)"
    by (auto simp: list_ex_iff)
  have "evolves st (snd (restore_show_focus w st))"
    by (rule quiet_evolves) (rule quiet_restore_show_focus)
  then have "evolves st (rejected (restore_show_focus w st))" by (rule evolves_rejected)
  then have "length (windows (rejected (restore_show_focus w st))) = length (windows st)"
    by (simp add: evolves_def)
  with Some ex show ?thesis by (simp add: restoreOrCreateWindow_def)
qed

lemma quietD: "quiet a \<Longrightarrow> dead (snd (a st)) = dead st"
  by (simp add: quiet_def)

lemma dead_fields [simp]:
  "dead (st\<lparr>loading := x\<rparr>) = dead st" "dead (st\<lparr>timers := y\<rparr>) = dead st"
  "dead (st\<lparr>defaultPrevented := b\<rparr>) = dead st" "dead (st\<lparr>errors := z\<rparr>) = dead st"
  "dead (st\<lparr>dialogs := ds\<rparr>) = dead st" "dead (st\<lparr>trace := t\<rparr>) = dead st"
  by (simp_all add: dead_def)

lemma ipc_listeners_not_quit:
  assumes "wf e st" and "l \<in> set (listeners_of ch (ipcMain st))"
  shows "\<forall>w. l \<noteq> BeforeQuitListener w"
proof -
  from assms have "l \<in> snd ` set (ipcMain st)" by (auto simp: listeners_of_def)
  with assms(1) show ?thesis by (auto simp: wf_ipcMain)
qed

lemma step_dead:
  assumes w: "wf e st" and nq: "ev \<noteq> BeforeQuit" and na: "ev \<noteq> Activate"
  shows "dead (step e ev st) = dead st"
proof (cases ev)
  case Activate
  with na show ?thesis by simp
next
  case (LoadURLResolved x)
  then show ?thesis by (simp add: quietD [OF quiet_restore_show_focus])
next
  case (LoadURLRejected x)
  then show ?thesis by (simp add: dead_def)
next
  case (ReadyToShow x)
  show ?thesis
  proof (cases "isDestroyed st x")
    case True
    with ReadyToShow show ?thesis by simp
  next
    case False
    then have "x < length (windows st)" by (simp add: isDestroyed_iff)
    with w have "listeners (windows st ! x) =
        [(''ready-to-show'', ReadyToShowListener x), (''close'', CloseListener x)]"
      by (rule wf_window(3))
    then have "emit e (listeners (windows st ! x)) ''ready-to-show'' [] st = 
               call_all e [ReadyToShowListener x] [] st"
      by (simp only: emit_def listeners_of_window)
    moreover have "quiet (call_all e [ReadyToShowListener x] [])"
      by (rule quiet_call_all) simp
    ultimately show ?thesis using ReadyToShow False by (simp add: quietD del: call_all.simps)
  qed
next
  case (CloseRequest x)
  show ?thesis
  proof (cases "isDestroyed st x")
    case True
    with CloseRequest show ?thesis by (simp add: close_request_def)
  next
    case False
    with w have "close_request e x st = snd (on_close e x (st\<lparr>defaultPrevented := False\<rparr>))"
      by (rule close_request_wf)
    with CloseRequest show ?thesis by (simp add: quietD [OF quiet_on_close])
  qed
next
  case BeforeQuit
  with nq show ?thesis by simp
next
  case (IpcMessage ch args)
  have "quiet (call_all e (listeners_of ch (ipcMain st)) args)"
    by (rule quiet_call_all) (use w ipc_listeners_not_quit in blast)
  with IpcMessage show ?thesis by (simp add: emit_def quietD)
next
  case (DialogResolved k c fs)
  have "quiet (async (on_dialog_response (fst (dialogs st ! k)) (fst (snd (dialogs st ! k)))
              (OpenDialogReturnValue c fs)))"
    by (intro quiet_async quiet_on_dialog_response)
  with DialogResolved show ?thesis by (simp add: quietD settle_def)
next
  case (DialogRejected k)
  then show ?thesis by (simp add: settle_def)
next
  case (TimerFired x)
  then show ?thesis by (simp add: quietD [OF quiet_on_timeout])
qed

lemma dead_restoreOrCreateWindow:
  "dead (restoreOrCreateWindow e st) =
     dead st @ (if list_ex (\<lambda>b. \<not> destroyed b) (windows st) then [] else [False])"
proof (cases "find (\<lambda>w. \<not> isDestroyed st w) (getAllWindows st)")
  case None
  then have all: "\<forall>w < length (windows st). destroyed (windows st ! w)"
    by (simp only: find_live_None)
  then have "\<not> list_ex (\<lambda>b. \<not> destroyed b) (windows st)"
    by (auto simp: list_ex_iff in_set_conv_nth)
  with None show ?thesis by (simp add: restoreOrCreateWindow_def createWindow_dead)
next
  case (Some w)
  then have "w < length (windows st) \<and> \<not> destroyed (windows st ! w)" by (rule find_live_Some)
  then have ex: "list_ex (\<lambda>b. \<not> destroyed b) (windows st)"
    by (auto simp: list_ex_iff)
  with Some show ?thesis
    by (simp add: restoreOrCreateWindow_def quietD [OF quiet_restore_show_focus])
qed

lemma call_all_before_quit:
  "fst (call_all e (map BeforeQuitListener ws) args st) = None \<and>
   (\<forall>w \<in> set ws. isDestroyed (snd (call_all e (map BeforeQuitListener ws) args st)) w)"
proof (induction ws arbitrary: st)
  case Nil
  show ?case by simp
next
  case (Cons w ws)
  let ?s1 = "snd (win_destroy w st)"
  have c: "call_all e (map BeforeQuitListener (w # ws)) args st =
           call_all e (map BeforeQuitListener ws) args ?s1"
    using win_destroy_ok [of w st]
    by (cases "win_destroy w st") (simp add: on_before_quit_def)
  have "isDestroyed ?s1 w" by (rule win_destroy_isDestroyed)
  moreover have "evolves ?s1 (snd (call_all e (map BeforeQuitListener ws) args ?s1))"
    by (rule call_all_evolves)
  ultimately have "isDestroyed (snd (call_all e (map BeforeQuitListener ws) args ?s1)) w"
    by (simp add: evolves_def)
  with Cons.IH [of ?s1] c show ?case by simp
qed

lemma before_quit_destroys_all:
  assumes "wf e st"
  shows "list_all destroyed (windows (step e BeforeQuit st))"
proof -
  let ?ws = "[0..<length (windows st)]"
  let ?r = "call_all e (map BeforeQuitListener ?ws) [] st"
  from assms have em: "emit e (app st) ''before-quit'' [] st = ?r"
    by (simp add: emit_def wf_app listeners_of_app)
  have ok: "fst ?r = None" and all: "\<forall>w \<in> set ?ws. isDestroyed (snd ?r) w"
    using call_all_before_quit [of e ?ws "[]" st] by simp_all
  from ok have u: "uncaught ?r = snd ?r" by (cases ?r) (simp add: uncaught_def)
  have "evolves st (snd ?r)" by (rule call_all_evolves)
  then have len: "length (windows (snd ?r)) = length (windows st)" by (simp add: evolves_def)
  have "destroyed b" if "b \<in> set (windows (snd ?r))" for b
  proof -
    from that obtain i where i: "i < length (windows (snd ?r))" and b: "b = windows (snd ?r) ! i"
      by (auto simp: in_set_conv_nth)
    with len all have "isDestroyed (snd ?r) i" by simp
    with i b show ?thesis by (simp add: isDestroyed_iff)
  qed
  then have "list_all destroyed (windows (snd ?r))" by (simp add: list_all_iff)
  with em u show ?thesis by simp
qed

lemma run_Nil: "run e [] st = st"
  by (simp add: run_def)

lemma run_Cons: "run e (ev # evs) st = run e evs (step e ev st)"
  by (simp add: run_def)

lemma first_activate_length: "length (windows (run e [Activate] init)) = 1"
  by (simp add: run_Cons run_Nil length_restoreOrCreateWindow init_def)

lemma first_activate_dead: "dead (run e [Activate] init) = [False]"
  by (simp add: run_Cons run_Nil dead_restoreOrCreateWindow) (simp add: init_def dead_def)

lemma take_dead_step:
  assumes "wf e st" and "ev \<noteq> BeforeQuit"
  shows "take (length (windows st)) (dead (step e ev st)) = dead st"
proof (cases "ev = Activate")
  case True
  then show ?thesis by (simp add: dead_restoreOrCreateWindow)
next
  case False
  with assms have "dead (step e ev st) = dead st" by (simp add: step_dead)
  then show ?thesis by simp
qed

lemma first_activate_live: "\<not> isDestroyed (run e [Activate] init) 0"
  using first_activate_dead [of e] by (simp add: isDestroyed_dead)

subsection \<open>Restore, show and focus\<close>

lemma window_update_same:
  "\<not> minimized b \<Longrightarrow> b\<lparr>minimized := False\<rparr> = b"
  "visible b \<Longrightarrow> b\<lparr>visible := True\<rparr> = b"
  "focused b \<Longrightarrow> b\<lparr>focused := True\<rparr> = b"
  by (cases b; simp)+

lemma restore_show_focus_live:
  assumes "\<not> isDestroyed st w"
  shows "restore_show_focus w st =
     (None, st\<lparr>windows := (windows st)[w := (windows st ! w)\<lparr>minimized := False, visible := True,
                                                           focused := True\<rparr>],
                trace := trace st @ (if minimized (windows st ! w) then [Restore w] else []) @
                           (if visible (windows st ! w) then [] else [Show w]) @ [Focus w]\<rparr>)"
proof -
  from assms have lt: "w < length (windows st)" and nd: "\<not> destroyed (windows st ! w)"
    by (simp_all add: isDestroyed_iff)
  show ?thesis
  proof (cases "minimized (windows st ! w)")
    case m: True
    show ?thesis
    proof (cases "visible (windows st ! w)")
      case True
      with m lt nd show ?thesis
        by (simp add: restore_show_focus_def win_isMinimized_def win_isVisible_def and_then_def
            skip_def win_restore_def win_show_def win_focus_def call_window_def isDestroyed_iff
            window_update_same)
    next
      case False
      with m lt nd show ?thesis
        by (simp add: restore_show_focus_def win_isMinimized_def win_isVisible_def and_then_def
            skip_def win_restore_def win_show_def win_focus_def call_window_def isDestroyed_iff)
    qed
  next
    case m: False
    show ?thesis
    proof (cases "visible (windows st ! w)")
      case True
      with m lt nd show ?thesis
        by (simp add: restore_show_focus_def win_isMinimized_def win_isVisible_def and_then_def
            skip_def win_restore_def win_show_def win_focus_def call_window_def isDestroyed_iff
            window_update_same)
    next
      case False
      with m lt nd show ?thesis
        by (simp add: restore_show_focus_def win_isMinimized_def win_isVisible_def and_then_def
            skip_def win_restore_def win_show_def win_focus_def call_window_def isDestroyed_iff
            window_update_same)
    qed
  qed
qed

lemma restoreOrCreateWindow_found:
  assumes "find (\<lambda>x. \<not> isDestroyed st x) (getAllWindows st) = Some w"
  shows "restoreOrCreateWindow e st =
     st\<lparr>windows := (windows st)[w := (windows st ! w)\<lparr>minimized := False, visible := True,
                                                     focused := True\<rparr>],
        trace := trace st @ (if minimized (windows st ! w) then [Restore w] else []) @
                   (if visible (windows st ! w) then [] else [Show w]) @ [Focus w]\<rparr>"
proof -
  from assms have "w < length (windows st) \<and> \<not> destroyed (windows st ! w)"
    by (rule find_live_Some)
  then have "\<not> isDestroyed st w" by (simp add: isDestroyed_iff)
  then show ?thesis using assms
    by (simp add: restoreOrCreateWindow_def restore_show_focus_live rejected_def)
qed

lemma load_resolved:
  assumes "w \<in> set (loading s)" and "\<not> isDestroyed s w"
  shows "step e (LoadURLResolved w) s =
     s\<lparr>windows := (windows s)[w := (windows s ! w)\<lparr>minimized := False, visible := True,
                                                   focused := True\<rparr>],
       loading := remove1 w (loading s),
       trace := trace s @ (if minimized (windows s ! w) then [Restore w] else []) @
                  (if visible (windows s ! w) then [] else [Show w]) @ [Focus w]\<rparr>"
proof -
  from assms(2) have "\<not> isDestroyed (s\<lparr>loading := remove1 w (loading s)\<rparr>) w"
    by (simp add: isDestroyed_iff)
  then show ?thesis using assms(1)
    by (simp add: restore_show_focus_live rejected_def)
qed

lemma restoreOrCreateWindow_none:
  assumes "find (\<lambda>x. \<not> isDestroyed st x) (getAllWindows st) = None"
  shows "restoreOrCreateWindow e st = snd (createWindow e st)"
  using assms by (simp add: restoreOrCreateWindow_def)

lemma find_live_dead:
  "find (\<lambda>x. \<not> isDestroyed st x) (getAllWindows st) =
   find (\<lambda>x. \<not> dead st ! x) [0..<length (dead st)]"
  by (rule find_cong) (simp_all add: getAllWindows_def isDestroyed_dead)

lemma dead_run:
  "wf e st \<Longrightarrow> BeforeQuit \<notin> set evs \<Longrightarrow> Activate \<notin> set evs \<Longrightarrow> dead (run e evs st) = dead st"
proof (induction evs arbitrary: st)
  case Nil
  show ?case by (simp add: run_Nil)
next
  case (Cons ev evs)
  from Cons.prems have "ev \<noteq> BeforeQuit" and "ev \<noteq> Activate" by auto
  with Cons.prems(1) have "dead (step e ev st) = dead st" by (rule step_dead)
  moreover from Cons.prems have "wf e (step e ev st)" by (simp add: wf_step)
  ultimately show ?case using Cons by (simp add: run_Cons)
qed

lemma first_activate_loading: "loading (run e [Activate] init) = [0]"
  by (simp add: run_Cons run_Nil restoreOrCreateWindow_def getAllWindows_def createWindow_eq
      init_def)

lemma init_activate:
  "dead (restoreOrCreateWindow e init) = [False]"
  "loading (restoreOrCreateWindow e init) = [0]"
  "wf e (restoreOrCreateWindow e init)"
  "length (windows (restoreOrCreateWindow e init)) = 1"
  "\<not> isDestroyed (restoreOrCreateWindow e init) 0"
  using first_activate_dead [of e] first_activate_loading [of e] wf_run [of e "[Activate]"]
    first_activate_length [of e] first_activate_live [of e]
  by (simp_all add: run_Cons run_Nil)

lemma find_single_live:
  assumes "dead st = [False]"
  shows "find (\<lambda>x. \<not> isDestroyed st x) (getAllWindows st) = Some 0"
  by (simp add: find_live_dead assms)

lemma minimized_scenario:
  "dead (run e [Activate, LoadURLResolved 0, CloseRequest 0] init) = [False]"
proof -
  have "dead (run e [LoadURLResolved 0, CloseRequest 0] (restoreOrCreateWindow e init)) =
        dead (restoreOrCreateWindow e init)"
    by (rule dead_run) (simp_all add: init_activate)
  then show ?thesis by (simp add: run_Cons init_activate del: step.simps(2-))
qed

subsection \<open>The relays\<close>

lemma call_all_open_file:
  "call_all e (map OpenFileListener ws) (a # DialogParam d m # rest) st =
     (None, st\<lparr>dialogs := dialogs st @ map (\<lambda>w. (w, Str d, False)) ws,
                trace := trace st @ map (\<lambda>w. ShowOpenDialog w ''openFile'' (Str m)) ws\<rparr>)"
  by (induction ws arbitrary: st)
     (simp_all add: async_def on_dialog_open_def arg_def dialog_showOpenDialog_def)

lemma call_all_open_folder:
  "call_all e (map OpenFolderListener ws) (a # DialogParam d m # rest) st =
     (None, st\<lparr>dialogs := dialogs st @ map (\<lambda>w. (w, Str d, False)) ws,
                trace := trace st @ map (\<lambda>w. ShowOpenDialog w ''openDirectory'' (Str m)) ws\<rparr>)"
  by (induction ws arbitrary: st)
     (simp_all add: async_def on_dialog_open_def arg_def dialog_showOpenDialog_def)

lemma dialog_request:
  assumes "wf e st" and "ch = ''dialog:openFile'' \<or> ch = ''dialog:openFolder''"
  shows "step e (IpcMessage ch (a # DialogParam d m # rest)) st =
     st\<lparr>dialogs := dialogs st @ map (\<lambda>w. (w, Str d, False)) [0..<length (windows st)],
        trace := trace st @
          map (\<lambda>w. ShowOpenDialog w (dialog_property ch) (Str m)) [0..<length (windows st)]\<rparr>"
  using assms(2)
proof
  assume "ch = ''dialog:openFile''"
  then show ?thesis
    by (simp add: emit_def wf_ipcMain [OF assms(1)] listeners_of_ipc call_all_open_file
        uncaught_def dialog_property_def)
next
  assume "ch = ''dialog:openFolder''"
  then show ?thesis
    by (simp add: emit_def wf_ipcMain [OF assms(1)] listeners_of_ipc call_all_open_folder
        uncaught_def dialog_property_def)
qed

lemma dialog_resolved:
  assumes "k < length (dialogs s)" and "dialogs s ! k = (w, d, False)" and "\<not> isDestroyed s w"
  shows "step e (DialogResolved k c f) s =
     s\<lparr>dialogs := (dialogs s)[k := (w, d, True)],
       trace := trace s @ [Send w ''dialog:open-file-or-folder-response''
                                [d, OpenDialogReturnValue c f]]\<rparr>"
  using assms
  by (simp add: pending_def settle_def async_def on_dialog_response_def webContents_send_def
      call_window_def isDestroyed_iff)

lemma dialog_resolved_stale:
  assumes "k < length (dialogs s)" and "dialogs s ! k = (w, d, False)" and "isDestroyed s w"
  shows "step e (DialogResolved k c f) s =
     s\<lparr>dialogs := (dialogs s)[k := (w, d, True)],
       errors := errors s @ [UnhandledRejection ObjectDestroyed]\<rparr>"
  using assms
  by (simp add: pending_def settle_def async_def on_dialog_response_def webContents_send_def
      call_window_def isDestroyed_iff)

lemma dialog_resolved_settled:
  "\<not> pending s k \<Longrightarrow> step e (DialogResolved k c f) s = s"
  by simp

lemma container_stopped_live:
  "\<not> isDestroyed st w \<Longrightarrow>
   on_container_stopped w (p # rest) st =
     (None, st\<lparr>trace := trace st @ [Send w ''container-stopped-event'' [p]]\<rparr>)"
  by (simp add: on_container_stopped_def webContents_send_def call_window_def arg_def)

lemma container_stopped_stale:
  "isDestroyed st w \<Longrightarrow> on_container_stopped w args st = (Some ObjectDestroyed, st)"
  by (simp add: on_container_stopped_def webContents_send_def call_window_def)

lemma filter_response_dialogs [simp]:
  "filter (is_response d) (map (\<lambda>w. ShowOpenDialog w p m) ws) = []"
  by (induction ws) simp_all

lemma nth_dialogs:
  assumes "w < n"
  shows "(ds @ map f [0..<n] @ map g [0..<n]) ! (length ds + w) = f w"
    and "(ds @ map f [0..<n] @ map g [0..<n]) ! (length ds + n + w) = g w"
  using assms by (simp_all add: nth_append)

lemma two_requests:
  assumes w: "wf e st"
    and chA: "chA = ''dialog:openFile'' \<or> chA = ''dialog:openFolder''"
    and chB: "chB = ''dialog:openFile'' \<or> chB = ''dialog:openFolder''"
  shows "step e (IpcMessage chB (xB # DialogParam B mB # restB))
           (step e (IpcMessage chA (xA # DialogParam A mA # restA)) st) =
     st\<lparr>dialogs := dialogs st @ map (\<lambda>w. (w, Str A, False)) [0..<length (windows st)] @
                                 map (\<lambda>w. (w, Str B, False)) [0..<length (windows st)],
        trace := trace st @
          map (\<lambda>w. ShowOpenDialog w (dialog_property chA) (Str mA)) [0..<length (windows st)] @
          map (\<lambda>w. ShowOpenDialog w (dialog_property chB) (Str mB)) [0..<length (windows st)]\<rparr>"
proof -
  let ?s1 = "step e (IpcMessage chA (xA # DialogParam A mA # restA)) st"
  have 1: "?s1 = st\<lparr>dialogs := dialogs st @ map (\<lambda>w. (w, Str A, False)) [0..<length (windows st)],
        trace := trace st @
          map (\<lambda>w. ShowOpenDialog w (dialog_property chA) (Str mA)) [0..<length (windows st)]\<rparr>"
    using w chA by (rule dialog_request)
  have "wf e ?s1" using w by (rule wf_step)
  then have "step e (IpcMessage chB (xB # DialogParam B mB # restB)) ?s1 =
     ?s1\<lparr>dialogs := dialogs ?s1 @ map (\<lambda>w. (w, Str B, False)) [0..<length (windows ?s1)],
        trace := trace ?s1 @
          map (\<lambda>w. ShowOpenDialog w (dialog_property chB) (Str mB)) [0..<length (windows ?s1)]\<rparr>"
    using chB by (rule dialog_request)
  then show ?thesis by (simp add: 1 del: step.simps)
qed

subsection \<open>Two concrete runs: first activation, and activation after a quit\<close>

lemma init_activate_more:
  "dialogs (restoreOrCreateWindow e init) = []"
  "trace (restoreOrCreateWindow e init) = [NewBrowserWindow 0, SetTimeout 0, LoadURL 0 (pageUrl e)]"
  by (simp_all add: restoreOrCreateWindow_def getAllWindows_def createWindow_eq init_def)

lemma stale_listener_aborts:
  assumes "wf e st" and "0 < length (windows st)" and "isDestroyed st 0"
  shows "step e (IpcMessage ''container-stopped-event'' args) st =
           st\<lparr>errors := errors st @ [UncaughtException ObjectDestroyed]\<rparr>"
proof -
  have "listeners_of ''container-stopped-event'' (ipcMain st) =
        map ContainerStoppedListener [0..<length (windows st)]"
    by (simp only: wf_ipcMain [OF assms(1)] listeners_of_ipc)
  also have "\<dots> = ContainerStoppedListener 0 # map ContainerStoppedListener [1..<length (windows st)]"
    using assms(2) by (simp add: upt_conv_Cons)
  finally show ?thesis
    by (simp add: emit_def container_stopped_stale [OF assms(3)] uncaught_def)
qed

lemma quit_reactivate_dead: "dead (run e [Activate, BeforeQuit, Activate] init) = [True, False]"
proof -
  let ?s1 = "restoreOrCreateWindow e init"
  let ?s2 = "step e BeforeQuit ?s1"
  have w1: "wf e ?s1" by (rule init_activate)
  have all: "list_all destroyed (windows ?s2)" using w1 by (rule before_quit_destroys_all)
  have "evolves ?s1 ?s2" by (rule step_evolves) simp
  then have len: "length (windows ?s2) = 1" by (simp add: evolves_def init_activate del: step.simps)
  then obtain b where b: "windows ?s2 = [b]"
    by (cases "windows ?s2") simp_all
  with all have d2: "dead ?s2 = [True]" by (simp add: dead_def del: step.simps)
  from b all have "\<not> list_ex (\<lambda>b. \<not> destroyed b) (windows ?s2)" by (simp del: step.simps)
  then have "dead (restoreOrCreateWindow e ?s2) = [True, False]"
    by (simp add: dead_restoreOrCreateWindow d2 del: step.simps)
  then show ?thesis by (simp add: run_Cons run_Nil del: step.simps(2-))
qed

lemma length_windows_step: "length (windows st) \<le> length (windows (step e ev st))"
proof (cases "ev = Activate")
  case True
  then show ?thesis by (simp add: length_restoreOrCreateWindow)
next
  case False
  then have "evolves st (step e ev st)" by (rule step_evolves)
  then show ?thesis by (simp add: evolves_def)
qed

lemma dialog_resolved_trace:
  assumes "pending s k"
  shows "trace (step e (DialogResolved k c f) s) =
     trace s @ (if isDestroyed s (fst (dialogs s ! k)) then []
                else [Send (fst (dialogs s ! k)) ''dialog:open-file-or-folder-response''
                        [fst (snd (dialogs s ! k)), OpenDialogReturnValue c f]])"
proof -
  obtain w d b where n: "dialogs s ! k = (w, d, b)" by (cases "dialogs s ! k")
  with assms have lt: "k < length (dialogs s)" and n': "dialogs s ! k = (w, d, False)"
    by (simp_all add: pending_def)
  show ?thesis
  proof (cases "isDestroyed s w")
    case True
    from dialog_resolved_stale [OF lt n' True] True n' show ?thesis
      by (simp del: step.simps)
  next
    case False
    from dialog_resolved [OF lt n' False] False n' show ?thesis
      by (simp del: step.simps)
  qed
qed

lemma dialogs_restoreOrCreateWindow: "dialogs (restoreOrCreateWindow e st) = dialogs st"
proof (cases "find (\<lambda>x. \<not> isDestroyed st x) (getAllWindows st)")
  case None
  then show ?thesis by (simp add: restoreOrCreateWindow_none createWindow_eq)
next
  case (Some w)
  then show ?thesis by (simp add: restoreOrCreateWindow_found)
qed

lemma dialogs_call_all_quit:
  "dialogs (snd (call_all e (map BeforeQuitListener ws) args st)) = dialogs st"
  by (induction ws arbitrary: st) (simp_all add: on_before_quit_def win_destroy_def)

lemma dialogs_before_quit:
  assumes "wf e st"
  shows "dialogs (step e BeforeQuit st) = dialogs st"
proof -
  have "fst (call_all e (map BeforeQuitListener [0..<length (windows st)]) [] st) = None"
    using call_all_before_quit [of e "[0..<length (windows st)]" "[]" st] by simp
  then have "uncaught (call_all e (map BeforeQuitListener [0..<length (windows st)]) [] st) =
             snd (call_all e (map BeforeQuitListener [0..<length (windows st)]) [] st)"
    by (cases "call_all e (map BeforeQuitListener [0..<length (windows st)]) [] st")
       (simp add: uncaught_def)
  then show ?thesis
    by (simp add: emit_def wf_app [OF assms] listeners_of_app dialogs_call_all_quit)
qed

lemma quit_reactivate:
  "dialogs (run e [Activate, BeforeQuit, Activate] init) = []"
  "length (windows (run e [Activate, BeforeQuit, Activate] init)) = 2"
  "\<not> isDestroyed (run e [Activate, BeforeQuit, Activate] init) 1"
  "isDestroyed (run e [Activate, BeforeQuit, Activate] init) 0"
proof -
  have "dialogs (step e BeforeQuit (restoreOrCreateWindow e init)) = []"
    using dialogs_before_quit [OF init_activate(3), of e] by (simp add: init_activate_more)
  then show "dialogs (run e [Activate, BeforeQuit, Activate] init) = []"
    by (simp add: run_Cons run_Nil dialogs_restoreOrCreateWindow del: step.simps(2-))
  have d: "dead (run e [Activate, BeforeQuit, Activate] init) = [True, False]"
    by (rule quit_reactivate_dead)
  then have "length (dead (run e [Activate, BeforeQuit, Activate] init)) = 2" by simp
  then show "length (windows (run e [Activate, BeforeQuit, Activate] init)) = 2" by simp
  from d show "\<not> isDestroyed (run e [Activate, BeforeQuit, Activate] init) 1"
    and "isDestroyed (run e [Activate, BeforeQuit, Activate] init) 0"
    by (simp_all add: isDestroyed_dead)
qed

lemma trace_restoreOrCreateWindow_none:
  assumes "\<not> list_ex (\<lambda>b. \<not> destroyed b) (windows st)"
  shows "trace (restoreOrCreateWindow e st) =
     trace st @ [NewBrowserWindow (length (windows st)), SetTimeout (length (windows st)),
                 LoadURL (length (windows st)) (pageUrl e)]"
proof -
  from assms have "\<forall>w < length (windows st). destroyed (windows st ! w)"
    by (auto simp: list_ex_iff)
  then have "find (\<lambda>x. \<not> isDestroyed st x) (getAllWindows st) = None"
    by (simp only: find_live_None)
  then show ?thesis by (simp add: restoreOrCreateWindow_none createWindow_eq)
qed

lemma trace_before_quit_single:
  assumes "wf e st" and "length (windows st) = 1" and "\<not> isDestroyed st 0"
  shows "trace (step e BeforeQuit st) = trace st @ [Destroy 0]"
proof -
  have "listeners_of ''before-quit'' (app st) = map BeforeQuitListener [0..<length (windows st)]"
    by (simp only: wf_app [OF assms(1)] listeners_of_app)
  then have "listeners_of ''before-quit'' (app st) = [BeforeQuitListener 0]"
    by (simp add: assms(2))
  then show ?thesis using assms(3)
    by (simp add: emit_def on_before_quit_def win_destroy_def uncaught_def)
qed

lemma quit_reactivate_trace:
  "trace (run e [Activate, BeforeQuit, Activate] init) =
     [NewBrowserWindow 0, SetTimeout 0, LoadURL 0 (pageUrl e), Destroy 0,
      NewBrowserWindow 1, SetTimeout 1, LoadURL 1 (pageUrl e)]"
proof -
  let ?s1 = "restoreOrCreateWindow e init"
  let ?s2 = "step e BeforeQuit ?s1"
  have t2: "trace ?s2 = [NewBrowserWindow 0, SetTimeout 0, LoadURL 0 (pageUrl e), Destroy 0]"
    using trace_before_quit_single [OF init_activate(3) init_activate(4) init_activate(5), of e]
    by (simp add: init_activate_more del: step.simps)
  have all: "list_all destroyed (windows ?s2)"
    using init_activate(3) by (rule before_quit_destroys_all)
  have "evolves ?s1 ?s2" by (rule step_evolves) simp
  then have len: "length (windows ?s2) = 1" by (simp add: evolves_def init_activate del: step.simps)
  from all have "\<not> list_ex (\<lambda>b. \<not> destroyed b) (windows ?s2)"
    by (simp add: list_all_iff list_ex_iff del: step.simps)
  then have "trace (restoreOrCreateWindow e ?s2) =
     trace ?s2 @ [NewBrowserWindow (length (windows ?s2)), SetTimeout (length (windows ?s2)),
                 LoadURL (length (windows ?s2)) (pageUrl e)]"
    by (rule trace_restoreOrCreateWindow_none)
  then show ?thesis by (simp add: run_Cons run_Nil t2 len del: step.simps(2-))
qed

section \<open>The claims\<close>

subsection \<open>One window at most\<close>

text \<open>
  Claim C1.  Whatever events reach the event loop, and in whatever order (calls of
  \<open>restoreOrCreateWindow\<close>, ends of loads, close requests, quits, messages, dialog
  results, timers), at most one window that is not destroyed exists.  The function itself
  constructs a window exactly when no existing window is non-destroyed: the number of
  windows grows by one in that case and stays the same otherwise.
\<close>

theorem singleton_window:
  "length (filter (\<lambda>b. \<not> destroyed b) (windows (run e evs init))) \<le> 1 \<and>
   length (windows (restoreOrCreateWindow e st)) =
     length (windows st) + (if list_ex (\<lambda>b. \<not> destroyed b) (windows st) then 0 else 1)"
proof -
  have "wf e (run e evs init)" by (rule wf_run)
  then have "\<forall>i. Suc i < length (windows (run e evs init)) \<longrightarrow>
                 destroyed (windows (run e evs init) ! i)"
    by (simp add: wf_def)
  then have "length (filter (\<lambda>b. \<not> destroyed b) (windows (run e evs init))) \<le> 1"
    by (rule filter_all_but_last)
  then show ?thesis by (simp add: length_restoreOrCreateWindow)
qed

theorem singleton_window_witness:
  "length (filter (\<lambda>b. \<not> destroyed b)
      (windows (run linux_env [Activate, BeforeQuit, Activate, Activate] init))) \<le> 1 \<and>
   length (windows (restoreOrCreateWindow linux_env init)) = 1"
  using singleton_window [of linux_env "[Activate, BeforeQuit, Activate, Activate]" init]
  by (simp add: init_def)

subsection \<open>Content source\<close>

text \<open>
  Claim C5.  Every window of every reachable state was asked to load the development
  server URL when the development flag is set and the URL is defined, and the production
  file location, \<open>../renderer/dist/index.html\<close> resolved against \<open>file://\<close> followed by
  the module directory, in every other case.
\<close>

theorem content_source:
  assumes "w < length (windows (run e evs init))"
  shows "(DEV e \<and> VITE_DEV_SERVER_URL e = Some u \<longrightarrow>
            url (windows (run e evs init) ! w) = Some u) \<and>
         (\<not> (DEV e \<and> VITE_DEV_SERVER_URL e \<noteq> None) \<longrightarrow>
            url (windows (run e evs init) ! w) =
              Some (URL_toString e ''../renderer/dist/index.html'' (''file://'' @ dirname e)))"
proof -
  have "wf e (run e evs init)" by (rule wf_run)
  then have "url (windows (run e evs init) ! w) = Some (pageUrl e)"
    using assms by (rule wf_window(2))
  then show ?thesis by (auto simp: pageUrl_def)
qed

theorem content_source_witness:
  "url (windows (run mac_dev_env [Activate] init) ! 0) = Some ''http://localhost:3000/'' \<and>
   url (windows (run linux_env [Activate] init) ! 0) =
     Some ''file:///opt/app/packages/renderer/dist/index.html''"
proof -
  have m: "0 < length (windows (run mac_dev_env [Activate] init))"
    and l: "0 < length (windows (run linux_env [Activate] init))"
    by (simp_all add: first_activate_length)
  from content_source [OF m, of "''http://localhost:3000/''"] content_source [OF l]
  show ?thesis by (simp add: mac_dev_env_def linux_env_def)
qed

subsection \<open>Window chrome\<close>

text \<open>
  Claim C6.  On every platform the options of every window constructed have the title bar
  style \<open>hidden\<close> (on the Mac the earlier \<open>hiddenInset\<close> is overwritten), and \<open>frame\<close> is
  \<open>false\<close> exactly when the platform is not the Mac, where it is left unset.
\<close>

theorem chrome_options:
  assumes "w < length (windows (run e evs init))"
  shows "titleBarStyle (options (windows (run e evs init) ! w)) = Some ''hidden'' \<and>
         (frame (options (windows (run e evs init) ! w)) = Some False) = (\<not> isMac e) \<and>
         (isMac e \<longrightarrow> frame (options (windows (run e evs init) ! w)) = None)"
proof -
  have "wf e (run e evs init)" by (rule wf_run)
  then have "options (windows (run e evs init) ! w) = browserWindowConstructorOptions e"
    using assms by (rule wf_window(1))
  then show ?thesis by (simp add: browserWindowConstructorOptions_def Let_def)
qed

theorem chrome_options_witness:
  "titleBarStyle (options (windows (run mac_dev_env [Activate] init) ! 0)) = Some ''hidden'' \<and>
   frame (options (windows (run mac_dev_env [Activate] init) ! 0)) = None \<and>
   frame (options (windows (run linux_env [Activate] init) ! 0)) = Some False"
proof -
  have m: "0 < length (windows (run mac_dev_env [Activate] init))"
    and l: "0 < length (windows (run linux_env [Activate] init))"
    by (simp_all add: first_activate_length)
  from chrome_options [OF m] chrome_options [OF l]
  show ?thesis by (simp add: mac_dev_env_def linux_env_def)
qed

subsection \<open>Close requests\<close>

text \<open>
  Claim C2.  In every reachable state a close request leaves the destroyed flag of every
  window as it was: the close handler calls \<open>preventDefault\<close> before anything else, so
  the host does not close the window.  More generally no event other than the
  application's \<open>before-quit\<close> changes the destroyed flag of an existing window, and
  \<open>before-quit\<close> destroys every window.
\<close>

theorem close_never_destroys:
  assumes "st = run e evs init"
  shows "defaultPrevented (snd (on_close e w s)) \<and>
         map destroyed (windows (step e (CloseRequest w) st)) = map destroyed (windows st) \<and>
         (ev \<noteq> BeforeQuit \<longrightarrow>
            take (length (windows st)) (map destroyed (windows (step e ev st))) =
              map destroyed (windows st)) \<and>
         list_all destroyed (windows (step e BeforeQuit st))"
proof -
  from assms have w: "wf e st" by (simp add: wf_run)
  have "dead (step e (CloseRequest w) st) = dead st"
    using w by (rule step_dead) simp_all
  moreover have "ev \<noteq> BeforeQuit \<longrightarrow> take (length (windows st)) (dead (step e ev st)) = dead st"
    using w by (simp add: take_dead_step)
  moreover have "list_all destroyed (windows (step e BeforeQuit st))"
    using w by (rule before_quit_destroys_all)
  ultimately show ?thesis by (simp add: dead_def on_close_prevents)
qed

theorem close_never_destroys_witness:
  "map destroyed (windows (step linux_env (CloseRequest 0) (run linux_env [Activate] init))) = [False] \<and>
   take 1 (map destroyed (windows (step linux_env Activate (run linux_env [Activate] init)))) = [False] \<and>
   list_all destroyed (windows (step linux_env BeforeQuit (run linux_env [Activate] init)))"
proof -
  have d: "map destroyed (windows (run linux_env [Activate] init)) = [False]"
    using first_activate_dead [of linux_env] by (simp add: dead_def)
  have "Activate \<noteq> BeforeQuit" by simp
  with close_never_destroys [OF refl, where e = linux_env and evs = "[Activate]" and w = 0
      and ev = Activate and s = init] d
  show ?thesis by (simp add: first_activate_length)
qed

text \<open>
  Claim C7.  A close request on the live window of a reachable state does not destroy it.
  On Linux the window is minimised, its visibility and the dock untouched.  On every other
  platform the window is hidden; on the Mac the dock icon is hidden as well, elsewhere the
  dock is untouched.
\<close>

theorem close_minimizes_or_hides:
  assumes "st = run e evs init" and "\<not> isDestroyed st w"
  shows "\<not> destroyed (windows (step e (CloseRequest w) st) ! w) \<and>
         (isLinux e \<longrightarrow>
            minimized (windows (step e (CloseRequest w) st) ! w) \<and>
            visible (windows (step e (CloseRequest w) st) ! w) = visible (windows st ! w) \<and>
            dock (step e (CloseRequest w) st) = dock st \<and>
            trace (step e (CloseRequest w) st) = trace st @ [PreventDefault, Minimize w]) \<and>
         (\<not> isLinux e \<longrightarrow>
            \<not> visible (windows (step e (CloseRequest w) st) ! w) \<and>
            minimized (windows (step e (CloseRequest w) st) ! w) = minimized (windows st ! w) \<and>
            dock (step e (CloseRequest w) st) = (if isMac e then False else dock st) \<and>
            trace (step e (CloseRequest w) st) =
              trace st @ [PreventDefault, Hide w] @ (if isMac e then [DockHide] else []))"
proof -
  let ?s0 = "st\<lparr>defaultPrevented := False\<rparr>"
  from assms(1) have w: "wf e st" by (simp add: wf_run)
  from assms(2) have lt: "w < length (windows st)" and nd: "\<not> destroyed (windows st ! w)"
    by (simp_all add: isDestroyed_iff)
  from assms(2) have live: "\<not> isDestroyed ?s0 w" by (simp add: isDestroyed_iff)
  have cr: "step e (CloseRequest w) st = snd (on_close e w ?s0)"
    using close_request_wf [OF w assms(2)] by simp
  show ?thesis
  proof (cases "isLinux e")
    case True
    from on_close_linux [OF True live] cr lt nd True show ?thesis by simp
  next
    case False
    from on_close_other [OF False live] cr lt nd False show ?thesis by simp
  qed
qed

theorem close_minimizes_or_hides_witness:
  "minimized (windows (step linux_env (CloseRequest 0) (run linux_env [Activate] init)) ! 0) \<and>
   \<not> visible (windows (step mac_dev_env (CloseRequest 0) (run mac_dev_env [Activate] init)) ! 0) \<and>
   \<not> dock (step mac_dev_env (CloseRequest 0) (run mac_dev_env [Activate] init))"
proof -
  have l: "isLinux linux_env" and m: "\<not> isLinux mac_dev_env" "isMac mac_dev_env"
    by (simp_all add: linux_env_def mac_dev_env_def)
  from close_minimizes_or_hides [OF refl first_activate_live, of linux_env]
    close_minimizes_or_hides [OF refl first_activate_live, of mac_dev_env] l m
  show ?thesis by simp
qed

subsection \<open>Activation\<close>

text \<open>
  Claim C8.  When \<open>restoreOrCreateWindow\<close> finds a live window it returns without error
  and that window is then not minimised, visible and focused; \<open>restore\<close> is called exactly
  when the window was minimised, \<open>show\<close> exactly when it was not visible, and \<open>focus\<close> is
  the last call.  When it finds none, the window it constructs is live and the call waits
  for the load; when the load of a live window ends, the same holds for that window.
\<close>

theorem activate_restores_shows_focuses:
  "(find (\<lambda>x. \<not> isDestroyed st x) (getAllWindows st) = Some w \<longrightarrow>
      \<not> minimized (windows (restoreOrCreateWindow e st) ! w) \<and>
      visible (windows (restoreOrCreateWindow e st) ! w) \<and>
      focused (windows (restoreOrCreateWindow e st) ! w) \<and>
      errors (restoreOrCreateWindow e st) = errors st \<and>
      trace (restoreOrCreateWindow e st) =
        trace st @ (if minimized (windows st ! w) then [Restore w] else []) @
          (if visible (windows st ! w) then [] else [Show w]) @ [Focus w]) \<and>
   (find (\<lambda>x. \<not> isDestroyed st x) (getAllWindows st) = None \<longrightarrow>
      length (windows st) \<in> set (loading (restoreOrCreateWindow e st)) \<and>
      \<not> isDestroyed (restoreOrCreateWindow e st) (length (windows st))) \<and>
   (w \<in> set (loading s) \<and> \<not> isDestroyed s w \<longrightarrow>
      \<not> minimized (windows (step e (LoadURLResolved w) s) ! w) \<and>
      visible (windows (step e (LoadURLResolved w) s) ! w) \<and>
      focused (windows (step e (LoadURLResolved w) s) ! w) \<and>
      errors (step e (LoadURLResolved w) s) = errors s \<and>
      trace (step e (LoadURLResolved w) s) =
        trace s @ (if minimized (windows s ! w) then [Restore w] else []) @
          (if visible (windows s ! w) then [] else [Show w]) @ [Focus w])"
proof (intro conjI impI)
  assume f: "find (\<lambda>x. \<not> isDestroyed st x) (getAllWindows st) = Some w"
  then have lt: "w < length (windows st)" using find_live_Some by blast
  note eq = restoreOrCreateWindow_found [OF f, of e]
  from lt show "\<not> minimized (windows (restoreOrCreateWindow e st) ! w)" by (simp add: eq)
  from lt show "visible (windows (restoreOrCreateWindow e st) ! w)" by (simp add: eq)
  from lt show "focused (windows (restoreOrCreateWindow e st) ! w)" by (simp add: eq)
  show "errors (restoreOrCreateWindow e st) = errors st" by (simp add: eq)
  show "trace (restoreOrCreateWindow e st) =
        trace st @ (if minimized (windows st ! w) then [Restore w] else []) @
          (if visible (windows st ! w) then [] else [Show w]) @ [Focus w]" by (simp add: eq)
next
  assume n: "find (\<lambda>x. \<not> isDestroyed st x) (getAllWindows st) = None"
  note eq = restoreOrCreateWindow_none [OF n, of e]
  show "length (windows st) \<in> set (loading (restoreOrCreateWindow e st))"
    by (simp add: eq createWindow_eq)
  show "\<not> isDestroyed (restoreOrCreateWindow e st) (length (windows st))"
    by (simp add: eq createWindow_eq isDestroyed_iff)
next
  assume a: "w \<in> set (loading s) \<and> \<not> isDestroyed s w"
  then have lt: "w < length (windows s)" by (simp add: isDestroyed_iff)
  from a have eq: "step e (LoadURLResolved w) s =
     s\<lparr>windows := (windows s)[w := (windows s ! w)\<lparr>minimized := False, visible := True,
                                                   focused := True\<rparr>],
       loading := remove1 w (loading s),
       trace := trace s @ (if minimized (windows s ! w) then [Restore w] else []) @
                  (if visible (windows s ! w) then [] else [Show w]) @ [Focus w]\<rparr>"
    using load_resolved [of w s e] by blast
  from lt show "\<not> minimized (windows (step e (LoadURLResolved w) s) ! w)" by (simp add: eq del: step.simps)
  from lt show "visible (windows (step e (LoadURLResolved w) s) ! w)" by (simp add: eq del: step.simps)
  from lt show "focused (windows (step e (LoadURLResolved w) s) ! w)" by (simp add: eq del: step.simps)
  show "errors (step e (LoadURLResolved w) s) = errors s" by (simp add: eq del: step.simps)
  show "trace (step e (LoadURLResolved w) s) =
        trace s @ (if minimized (windows s ! w) then [Restore w] else []) @
          (if visible (windows s ! w) then [] else [Show w]) @ [Focus w]" by (simp add: eq del: step.simps)
qed

theorem activate_restores_shows_focuses_witness:
  "\<not> minimized (windows (restoreOrCreateWindow linux_env
        (run linux_env [Activate, LoadURLResolved 0, CloseRequest 0] init)) ! 0) \<and>
   visible (windows (restoreOrCreateWindow linux_env
        (run linux_env [Activate, LoadURLResolved 0, CloseRequest 0] init)) ! 0) \<and>
   focused (windows (restoreOrCreateWindow linux_env
        (run linux_env [Activate, LoadURLResolved 0, CloseRequest 0] init)) ! 0) \<and>
   0 \<in> set (loading (restoreOrCreateWindow linux_env init)) \<and>
   visible (windows (step linux_env (LoadURLResolved 0) (restoreOrCreateWindow linux_env init)) ! 0) \<and>
   focused (windows (step linux_env (LoadURLResolved 0) (restoreOrCreateWindow linux_env init)) ! 0)"
proof -
  let ?m = "run linux_env [Activate, LoadURLResolved 0, CloseRequest 0] init"
  let ?s = "restoreOrCreateWindow linux_env init"
  have f: "find (\<lambda>x. \<not> isDestroyed ?m x) (getAllWindows ?m) = Some 0"
    by (rule find_single_live) (rule minimized_scenario)
  have n: "find (\<lambda>x. \<not> isDestroyed init x) (getAllWindows init) = None"
    by (simp add: getAllWindows_def init_def)
  have l: "0 \<in> set (loading ?s) \<and> \<not> isDestroyed ?s 0"
    by (simp add: init_activate)
  have len: "length (windows init) = 0" by (simp add: init_def)
  from activate_restores_shows_focuses [where st = ?m and w = 0 and e = linux_env and s = ?s]
    activate_restores_shows_focuses [where st = init and w = 0 and e = linux_env and s = ?s]
    f n l len
  show ?thesis by (simp del: step.simps)
qed

text \<open>
  Claim C9.  When the window found is visible, focused and not minimised, a call of
  \<open>restoreOrCreateWindow\<close> changes nothing but the record of host calls, to which it adds
  the one call of \<open>focus\<close>: there is no \<open>restore\<close> and no \<open>show\<close>.  Whatever the state
  of the window found, a second call leaves the windows as the first call left them.
\<close>

theorem activate_idempotent:
  assumes "find (\<lambda>x. \<not> isDestroyed st x) (getAllWindows st) = Some w"
  shows "(visible (windows st ! w) \<and> focused (windows st ! w) \<and> \<not> minimized (windows st ! w) \<longrightarrow>
            restoreOrCreateWindow e st = st\<lparr>trace := trace st @ [Focus w]\<rparr>) \<and>
         windows (restoreOrCreateWindow e (restoreOrCreateWindow e st)) =
           windows (restoreOrCreateWindow e st)"
proof
  note eq = restoreOrCreateWindow_found [OF assms, of e]
  show "visible (windows st ! w) \<and> focused (windows st ! w) \<and> \<not> minimized (windows st ! w) \<longrightarrow>
            restoreOrCreateWindow e st = st\<lparr>trace := trace st @ [Focus w]\<rparr>"
    by (simp add: eq window_update_same)
  let ?s1 = "restoreOrCreateWindow e st"
  from assms have lt: "w < length (windows st)" using find_live_Some by blast
  have "dead ?s1 = dead st"
    by (simp add: eq dead_def map_update_keep)
  then have "find (\<lambda>x. \<not> isDestroyed ?s1 x) (getAllWindows ?s1) =
             find (\<lambda>x. \<not> isDestroyed st x) (getAllWindows st)"
    by (simp add: find_live_dead)
  with assms have f1: "find (\<lambda>x. \<not> isDestroyed ?s1 x) (getAllWindows ?s1) = Some w" by simp
  have "windows (restoreOrCreateWindow e ?s1) =
        (windows ?s1)[w := (windows ?s1 ! w)\<lparr>minimized := False, visible := True, focused := True\<rparr>]"
    by (simp add: restoreOrCreateWindow_found [OF f1, of e])
  also have "\<dots> = windows ?s1"
    using lt by (simp add: eq)
  finally show "windows (restoreOrCreateWindow e ?s1) = windows ?s1" .
qed

theorem activate_idempotent_witness:
  "restoreOrCreateWindow linux_env (run linux_env [Activate, LoadURLResolved 0] init) =
     (run linux_env [Activate, LoadURLResolved 0] init)
       \<lparr>trace := trace (run linux_env [Activate, LoadURLResolved 0] init) @ [Focus 0]\<rparr>"
proof -
  let ?s = "restoreOrCreateWindow linux_env init"
  let ?v = "run linux_env [Activate, LoadURLResolved 0] init"
  have v: "?v = step linux_env (LoadURLResolved 0) ?s" by (simp add: run_Cons run_Nil)
  have "dead (run linux_env [LoadURLResolved 0] ?s) = dead ?s"
    by (rule dead_run) (simp_all add: init_activate)
  then have "dead ?v = [False]" by (simp add: run_Cons run_Nil init_activate)
  then have f: "find (\<lambda>x. \<not> isDestroyed ?v x) (getAllWindows ?v) = Some 0"
    by (rule find_single_live)
  have "0 \<in> set (loading ?s)" and "\<not> isDestroyed ?s 0" by (simp_all add: init_activate)
  then have flags: "visible (windows ?v ! 0) \<and> focused (windows ?v ! 0) \<and> \<not> minimized (windows ?v ! 0)"
    unfolding v by (simp add: load_resolved init_activate del: step.simps)
  from activate_idempotent [OF f, of linux_env] flags show ?thesis by blast
qed

subsection \<open>Message relays\<close>

text \<open>
  Claim C3.  Take a reachable state with a live window and two dialog requests, with
  dialog ids \<open>A\<close> and \<open>B\<close>, each on the open-file or the open-folder channel.  The
  requests alone send nothing.  When the two pickers of the live window complete, in
  either order, exactly two messages are sent to that window, on the response channel:
  one with first argument \<open>A\<close> and the result of the first picker, one with first
  argument \<open>B\<close> and the result of the second.  For distinct ids each request thus has
  exactly one new response carrying its id.  A promise that is settled sends nothing more,
  and the handlers that listeners of destroyed windows ran for the same requests send
  nothing.
\<close>

theorem dialog_correlation:
  assumes reach: "st = run e evs init" and live: "\<not> isDestroyed st w"
    and chA: "chA = ''dialog:openFile'' \<or> chA = ''dialog:openFolder''"
    and chB: "chB = ''dialog:openFile'' \<or> chB = ''dialog:openFolder''"
    and s2: "s2 = step e (IpcMessage chB [xB, DialogParam B mB])
                    (step e (IpcMessage chA [xA, DialogParam A mA]) st)"
    and iA: "iA = length (dialogs st) + w"
    and iB: "iB = length (dialogs st) + length (windows st) + w"
    and rA: "rA = Send w ''dialog:open-file-or-folder-response'' [Str A, OpenDialogReturnValue cA fA]"
    and rB: "rB = Send w ''dialog:open-file-or-folder-response'' [Str B, OpenDialogReturnValue cB fB]"
    and sAB: "sAB = step e (DialogResolved iB cB fB) (step e (DialogResolved iA cA fA) s2)"
    and sBA: "sBA = step e (DialogResolved iA cA fA) (step e (DialogResolved iB cB fB) s2)"
  shows "responses A s2 = responses A st \<and> responses B s2 = responses B st \<and>
         trace sAB = trace s2 @ [rA, rB] \<and> trace sBA = trace s2 @ [rB, rA] \<and>
         (A \<noteq> B \<longrightarrow> responses A sAB = responses A st @ [rA] \<and>
                    responses B sAB = responses B st @ [rB] \<and>
                    responses A sBA = responses A st @ [rA] \<and>
                    responses B sBA = responses B st @ [rB]) \<and>
         step e (DialogResolved iA c f) sAB = sAB \<and>
         step e (DialogResolved iB c f) sAB = sAB \<and>
         (j < length (windows st) \<and> j \<noteq> w \<longrightarrow>
            trace (step e (DialogResolved (length (dialogs st) + j) c f) s2) = trace s2 \<and>
            trace (step e (DialogResolved (length (dialogs st) + length (windows st) + j) c f) s2) =
              trace s2)"
proof -
  let ?n = "length (windows st)"
  let ?D = "dialogs st @ map (\<lambda>w. (w, Str A, False)) [0..<?n] @ map (\<lambda>w. (w, Str B, False)) [0..<?n]"
  from reach have w: "wf e st" by (simp add: wf_run)
  from live have lt: "w < ?n" by (simp add: isDestroyed_iff)
  have e2: "s2 = st\<lparr>dialogs := ?D,
        trace := trace st @ map (\<lambda>w. ShowOpenDialog w (dialog_property chA) (Str mA)) [0..<?n] @
                            map (\<lambda>w. ShowOpenDialog w (dialog_property chB) (Str mB)) [0..<?n]\<rparr>"
    unfolding s2 using w chA chB by (rule two_requests)
  have d2: "dialogs s2 = ?D" and win2: "windows s2 = windows st" by (simp_all add: e2)
  have live2: "\<not> isDestroyed s2 w" using live by (simp add: isDestroyed_iff win2)
  have lenD: "length (dialogs s2) = length (dialogs st) + ?n + ?n" by (simp add: d2)
  have ltA: "iA < length (dialogs s2)" and ltB: "iB < length (dialogs s2)"
    using lt by (simp_all add: lenD iA iB)
  have nA: "dialogs s2 ! iA = (w, Str A, False)"
    unfolding d2 iA using lt by (rule nth_dialogs(1))
  have nB: "dialogs s2 ! iB = (w, Str B, False)"
    unfolding d2 iB using lt by (rule nth_dialogs(2))
  from lt have "0 < ?n" by (cases "windows st") simp_all
  then have ne: "iA \<noteq> iB" by (simp add: iA iB)
  \<comment> \<open>the first request is answered first\<close>
  let ?a = "step e (DialogResolved iA cA fA) s2"
  have a: "?a = s2\<lparr>dialogs := (dialogs s2)[iA := (w, Str A, True)], trace := trace s2 @ [rA]\<rparr>"
    unfolding rA using ltA nA live2 by (rule dialog_resolved)
  have a_lt: "iB < length (dialogs ?a)" using ltB by (simp add: a del: step.simps)
  have a_n: "dialogs ?a ! iB = (w, Str B, False)" using nB ne by (simp add: a del: step.simps)
  have a_live: "\<not> isDestroyed ?a w" using live2 by (simp add: a isDestroyed_iff del: step.simps)
  have ab: "sAB = ?a\<lparr>dialogs := (dialogs ?a)[iB := (w, Str B, True)], trace := trace ?a @ [rB]\<rparr>"
    unfolding sAB rB using a_lt a_n a_live by (rule dialog_resolved)
  have tAB: "trace sAB = trace s2 @ [rA, rB]" by (simp add: ab a del: step.simps)
  have dAB: "dialogs sAB = (dialogs s2)[iA := (w, Str A, True), iB := (w, Str B, True)]"
    by (simp add: ab a del: step.simps)
  \<comment> \<open>the second request is answered first\<close>
  let ?b = "step e (DialogResolved iB cB fB) s2"
  have b: "?b = s2\<lparr>dialogs := (dialogs s2)[iB := (w, Str B, True)], trace := trace s2 @ [rB]\<rparr>"
    unfolding rB using ltB nB live2 by (rule dialog_resolved)
  have b_lt: "iA < length (dialogs ?b)" using ltA by (simp add: b del: step.simps)
  have b_n: "dialogs ?b ! iA = (w, Str A, False)" using nA ne by (simp add: b del: step.simps)
  have b_live: "\<not> isDestroyed ?b w" using live2 by (simp add: b isDestroyed_iff del: step.simps)
  have ba: "sBA = ?b\<lparr>dialogs := (dialogs ?b)[iA := (w, Str A, True)], trace := trace ?b @ [rA]\<rparr>"
    unfolding sBA rA using b_lt b_n b_live by (rule dialog_resolved)
  have tBA: "trace sBA = trace s2 @ [rB, rA]" by (simp add: ba b del: step.simps)
  \<comment> \<open>responses\<close>
  have r2: "responses A s2 = responses A st" "responses B s2 = responses B st"
    by (simp_all add: responses_def e2)
  have cnt: "responses A sAB = responses A st @ [rA] \<and> responses B sAB = responses B st @ [rB] \<and>
             responses A sBA = responses A st @ [rA] \<and> responses B sBA = responses B st @ [rB]"
    if "A \<noteq> B"
    using that r2 by (simp add: responses_def tAB tBA rA rB)
  \<comment> \<open>a settled promise does not answer again\<close>
  have "\<not> pending sAB iA" using ltA ne by (simp add: pending_def dAB)
  then have sA: "step e (DialogResolved iA c f) sAB = sAB" by (rule dialog_resolved_settled)
  have "\<not> pending sAB iB" using ltB ne by (simp add: pending_def dAB)
  then have sB: "step e (DialogResolved iB c f) sAB = sAB" by (rule dialog_resolved_settled)
  \<comment> \<open>the handlers of destroyed windows answer nothing\<close>
  have stale: "trace (step e (DialogResolved (length (dialogs st) + j) c f) s2) = trace s2 \<and>
       trace (step e (DialogResolved (length (dialogs st) + ?n + j) c f) s2) = trace s2"
    if j: "j < ?n \<and> j \<noteq> w"
  proof -
    have "Suc w = ?n" using w live by (rule wf_live_last)
    with j have "Suc j < ?n" by simp
    with w have "destroyed (windows st ! j)" by (simp add: wf_def)
    then have dj: "isDestroyed s2 j" by (simp add: isDestroyed_iff win2)
    from j have jn: "j < ?n" by simp
    have l1: "length (dialogs st) + j < length (dialogs s2)"
      and l2: "length (dialogs st) + ?n + j < length (dialogs s2)"
      using jn by (simp_all add: lenD)
    have n1: "dialogs s2 ! (length (dialogs st) + j) = (j, Str A, False)"
      unfolding d2 using jn by (rule nth_dialogs(1))
    have n2: "dialogs s2 ! (length (dialogs st) + ?n + j) = (j, Str B, False)"
      unfolding d2 using jn by (rule nth_dialogs(2))
    show ?thesis
      by (simp add: dialog_resolved_stale [OF l1 n1 dj] dialog_resolved_stale [OF l2 n2 dj]
          del: step.simps)
  qed
  from r2 tAB tBA cnt sA sB stale show ?thesis by blast
qed

theorem dialog_correlation_witness:
  "responses ''A''
     (step linux_env (DialogResolved 1 True [])
       (step linux_env (DialogResolved 0 False [''/home/u/notes.txt''])
         (step linux_env (IpcMessage ''dialog:openFolder'' [Undefined, DialogParam ''B'' ''Select a folder''])
           (step linux_env (IpcMessage ''dialog:openFile'' [Undefined, DialogParam ''A'' ''Select a file''])
             (run linux_env [Activate] init))))) =
     [Send 0 ''dialog:open-file-or-folder-response''
        [Str ''A'', OpenDialogReturnValue False [''/home/u/notes.txt'']]] \<and>
   responses ''A''
     (step linux_env (DialogResolved 0 False [''/home/u/notes.txt''])
       (step linux_env (DialogResolved 1 True [])
         (step linux_env (IpcMessage ''dialog:openFolder'' [Undefined, DialogParam ''B'' ''Select a folder''])
           (step linux_env (IpcMessage ''dialog:openFile'' [Undefined, DialogParam ''A'' ''Select a file''])
             (run linux_env [Activate] init))))) =
     [Send 0 ''dialog:open-file-or-folder-response''
        [Str ''A'', OpenDialogReturnValue False [''/home/u/notes.txt'']]] \<and>
   trace
     (step linux_env (DialogResolved 0 False [''/home/u/notes.txt''])
       (step linux_env (IpcMessage ''dialog:openFolder'' [Undefined, DialogParam ''B'' ''Select a folder''])
         (step linux_env (IpcMessage ''dialog:openFile'' [Undefined, DialogParam ''A'' ''Select a file''])
           (run linux_env [Activate, BeforeQuit, Activate] init)))) =
   trace
       (step linux_env (IpcMessage ''dialog:openFolder'' [Undefined, DialogParam ''B'' ''Select a folder''])
         (step linux_env (IpcMessage ''dialog:openFile'' [Undefined, DialogParam ''A'' ''Select a file''])
           (run linux_env [Activate, BeforeQuit, Activate] init)))"
proof -
  let ?st = "run linux_env [Activate] init"
  let ?re = "run linux_env [Activate, BeforeQuit, Activate] init"
  have st: "?st = restoreOrCreateWindow linux_env init" by (simp add: run_Cons run_Nil)
  have iA: "0 = length (dialogs ?st) + 0"
    and iB: "1 = length (dialogs ?st) + length (windows ?st) + 0"
    by (simp_all add: st init_activate init_activate_more)
  have r0: "responses ''A'' ?st = []"
    by (simp add: responses_def st init_activate_more)
  have ne: "''A'' \<noteq> ''B''" by simp
  have chA: "''dialog:openFile'' = ''dialog:openFile'' \<or> ''dialog:openFile'' = ''dialog:openFolder''"
    and chB: "''dialog:openFolder'' = ''dialog:openFile'' \<or> ''dialog:openFolder'' = ''dialog:openFolder''"
    by simp_all
  have stale: "0 < length (windows ?re) \<and> (0::nat) \<noteq> 1" by (simp add: quit_reactivate)
  from dialog_correlation [OF refl first_activate_live chA chB refl iA iB refl refl refl refl,
      where A = "''A''" and B = "''B''" and cA = False and cB = True
        and fA = "[''/home/u/notes.txt'']" and fB = "[]"]
    dialog_correlation [OF refl quit_reactivate(3) chA chB refl refl refl refl refl refl refl,
      where e = linux_env and j = 0 and c = False and f = "[''/home/u/notes.txt'']"
        and A = "''A''" and B = "''B''" and mA = "''Select a file''" and mB = "''Select a folder''"
        and xA = Undefined and xB = Undefined]
    ne r0 stale
  show ?thesis by (simp add: quit_reactivate del: step.simps)
qed

text \<open>
  Claim C4.  Every payload that arrives on the inbound channel
  \<open>container-stopped-event\<close> is to be sent on, unchanged, on the channel of the same name
  to the content process of the window.  The listener of lines 60 to 62 does send its
  first argument, but it is registered anew at every construction and never removed, and
  the emitter calls the listeners in the order of their registration.  At the input
  below, a quit, a new activation and then one payload, window 1 is live; the listener of
  the destroyed window 0 is called first and throws, and the emission ends there.  The
  state changes by one uncaught exception only: the record of host calls holds no message
  to window 1.
\<close>

theorem container_stopped_dropped:
  "\<not> isDestroyed (run linux_env [Activate, BeforeQuit, Activate] init) 1 \<and>
   step linux_env (IpcMessage ''container-stopped-event'' [Str ''3f2a''])
       (run linux_env [Activate, BeforeQuit, Activate] init) =
     (run linux_env [Activate, BeforeQuit, Activate] init)
       \<lparr>errors := errors (run linux_env [Activate, BeforeQuit, Activate] init) @
                    [UncaughtException ObjectDestroyed]\<rparr> \<and>
   trace (step linux_env (IpcMessage ''container-stopped-event'' [Str ''3f2a''])
           (run linux_env [Activate, BeforeQuit, Activate] init)) =
     [NewBrowserWindow 0, SetTimeout 0, LoadURL 0 (pageUrl linux_env), Destroy 0,
      NewBrowserWindow 1, SetTimeout 1, LoadURL 1 (pageUrl linux_env)]"
proof -
  let ?st = "run linux_env [Activate, BeforeQuit, Activate] init"
  have w: "wf linux_env ?st" by (rule wf_run)
  have eq: "step linux_env (IpcMessage ''container-stopped-event'' [Str ''3f2a'']) ?st =
        ?st\<lparr>errors := errors ?st @ [UncaughtException ObjectDestroyed]\<rparr>"
    using w _ quit_reactivate(4) by (rule stale_listener_aborts) (simp add: quit_reactivate)
  have "trace (step linux_env (IpcMessage ''container-stopped-event'' [Str ''3f2a'']) ?st) =
        trace ?st"
    by (simp only: eq) simp
  with eq quit_reactivate(3) [of linux_env] quit_reactivate_trace [of linux_env]
  show ?thesis by (simp del: step.simps)
qed

subsection \<open>Listeners outlive their window\<close>

text \<open>
  Claim C10, as amended.  In every reachable state each of the three channels has one
  listener on the message bus per window ever constructed, in the order of construction,
  the listeners of destroyed windows included; windows, hence listeners, are never
  removed.  A request on the open-file or open-folder channel runs all of these handlers:
  each opens a picker.  When a picker completes, its handler sends the response exactly
  when its window is not destroyed.
\<close>

theorem listener_accumulation:
  assumes "st = run e evs init"
  shows "listeners_of ''container-stopped-event'' (ipcMain st) =
           map ContainerStoppedListener [0..<length (windows st)] \<and>
         listeners_of ''dialog:openFile'' (ipcMain st) =
           map OpenFileListener [0..<length (windows st)] \<and>
         listeners_of ''dialog:openFolder'' (ipcMain st) =
           map OpenFolderListener [0..<length (windows st)] \<and>
         length (windows st) \<le> length (windows (step e ev st)) \<and>
         step e (IpcMessage ''dialog:openFile'' (x # DialogParam d m # rest)) st =
           st\<lparr>dialogs := dialogs st @ map (\<lambda>w. (w, Str d, False)) [0..<length (windows st)],
              trace := trace st @
                map (\<lambda>w. ShowOpenDialog w ''openFile'' (Str m)) [0..<length (windows st)]\<rparr> \<and>
         step e (IpcMessage ''dialog:openFolder'' (x # DialogParam d m # rest)) st =
           st\<lparr>dialogs := dialogs st @ map (\<lambda>w. (w, Str d, False)) [0..<length (windows st)],
              trace := trace st @
                map (\<lambda>w. ShowOpenDialog w ''openDirectory'' (Str m)) [0..<length (windows st)]\<rparr> \<and>
         (pending s k \<longrightarrow>
            trace (step e (DialogResolved k c f) s) =
              trace s @ (if isDestroyed s (fst (dialogs s ! k)) then []
                         else [Send (fst (dialogs s ! k)) ''dialog:open-file-or-folder-response''
                                 [fst (snd (dialogs s ! k)), OpenDialogReturnValue c f]]))"
proof -
  from assms have w: "wf e st" by (simp add: wf_run)
  have 1: "listeners_of ''container-stopped-event'' (ipcMain st) =
           map ContainerStoppedListener [0..<length (windows st)]"
    and 2: "listeners_of ''dialog:openFile'' (ipcMain st) =
           map OpenFileListener [0..<length (windows st)]"
    and 3: "listeners_of ''dialog:openFolder'' (ipcMain st) =
           map OpenFolderListener [0..<length (windows st)]"
    by (simp_all only: wf_ipcMain [OF w] listeners_of_ipc)
  have 4: "length (windows st) \<le> length (windows (step e ev st))"
    by (rule length_windows_step)
  have 5: "step e (IpcMessage ''dialog:openFile'' (x # DialogParam d m # rest)) st =
           st\<lparr>dialogs := dialogs st @ map (\<lambda>w. (w, Str d, False)) [0..<length (windows st)],
              trace := trace st @
                map (\<lambda>w. ShowOpenDialog w ''openFile'' (Str m)) [0..<length (windows st)]\<rparr>"
    using dialog_request [OF w, of "''dialog:openFile''" x d m rest]
    by (simp add: dialog_property_def del: step.simps)
  have 6: "step e (IpcMessage ''dialog:openFolder'' (x # DialogParam d m # rest)) st =
           st\<lparr>dialogs := dialogs st @ map (\<lambda>w. (w, Str d, False)) [0..<length (windows st)],
              trace := trace st @
                map (\<lambda>w. ShowOpenDialog w ''openDirectory'' (Str m)) [0..<length (windows st)]\<rparr>"
    using dialog_request [OF w, of "''dialog:openFolder''" x d m rest]
    by (simp add: dialog_property_def del: step.simps)
  from 1 2 3 4 5 6 dialog_resolved_trace [of s k e c f] show ?thesis by blast
qed

theorem listener_accumulation_witness:
  "dialogs (step linux_env (IpcMessage ''dialog:openFile'' [Undefined, DialogParam ''A'' ''Select a file''])
              (run linux_env [Activate, BeforeQuit, Activate] init)) =
     [(0, Str ''A'', False), (1, Str ''A'', False)] \<and>
   length (listeners_of ''container-stopped-event''
             (ipcMain (run linux_env [Activate, BeforeQuit, Activate] init))) = 2 \<and>
   trace (step linux_env (DialogResolved 1 False [''/home/u/notes.txt''])
           (step linux_env (IpcMessage ''dialog:openFile'' [Undefined, DialogParam ''A'' ''Select a file''])
              (run linux_env [Activate, BeforeQuit, Activate] init))) =
     trace (step linux_env (IpcMessage ''dialog:openFile'' [Undefined, DialogParam ''A'' ''Select a file''])
              (run linux_env [Activate, BeforeQuit, Activate] init)) @
       [Send 1 ''dialog:open-file-or-folder-response''
          [Str ''A'', OpenDialogReturnValue False [''/home/u/notes.txt'']]] \<and>
   trace (step linux_env (DialogResolved 0 False [''/home/u/notes.txt''])
           (step linux_env (IpcMessage ''dialog:openFile'' [Undefined, DialogParam ''A'' ''Select a file''])
              (run linux_env [Activate, BeforeQuit, Activate] init))) =
     trace (step linux_env (IpcMessage ''dialog:openFile'' [Undefined, DialogParam ''A'' ''Select a file''])
              (run linux_env [Activate, BeforeQuit, Activate] init))"
proof -
  let ?st = "run linux_env [Activate, BeforeQuit, Activate] init"
  let ?rq = "step linux_env (IpcMessage ''dialog:openFile'' [Undefined, DialogParam ''A'' ''Select a file'']) ?st"
  have u: "[0..<2] = [0, 1]" by (simp add: upt_rec)
  note acc = listener_accumulation [OF refl, where e = linux_env
      and evs = "[Activate, BeforeQuit, Activate]" and x = Undefined and d = "''A''"
      and m = "''Select a file''" and rest = "[]" and c = False and f = "[''/home/u/notes.txt'']"
      and s = ?rq]
  from acc [where k = 0] have rq: "?rq = ?st\<lparr>dialogs := [(0, Str ''A'', False), (1, Str ''A'', False)],
      trace := trace ?st @ [ShowOpenDialog 0 ''openFile'' (Str ''Select a file''),
                            ShowOpenDialog 1 ''openFile'' (Str ''Select a file'')]\<rparr>"
    by (simp add: quit_reactivate u del: step.simps)
  have p1: "pending ?rq 1" and p0: "pending ?rq 0" by (simp_all add: rq pending_def del: step.simps)
  have l1: "\<not> isDestroyed ?rq 1" and l0: "isDestroyed ?rq 0"
    using quit_reactivate(3,4) [of linux_env] by (simp_all add: rq isDestroyed_iff del: step.simps)
  from acc [where k = 1] acc [where k = 0] p1 p0 l1 l0 show ?thesis
    by (simp add: quit_reactivate u rq del: step.simps)
qed

text \<open>
  The third channel is dispatched synchronously.  After a quit and a new activation the
  first of its two listeners belongs to the destroyed window: it throws, the emission ends
  there, and the listener of the live window is not called.  One window survives and
  nothing is sent to it.
\<close>

theorem stale_listener_counterexample:
  "map destroyed (windows (run linux_env [Activate, BeforeQuit, Activate] init)) = [True, False] \<and>
   listeners_of ''container-stopped-event'' (ipcMain (run linux_env [Activate, BeforeQuit, Activate] init))
     = [ContainerStoppedListener 0, ContainerStoppedListener 1] \<and>
   trace (step linux_env (IpcMessage ''container-stopped-event'' [Str ''3f2a''])
            (run linux_env [Activate, BeforeQuit, Activate] init)) =
     trace (run linux_env [Activate, BeforeQuit, Activate] init) \<and>
   errors (step linux_env (IpcMessage ''container-stopped-event'' [Str ''3f2a''])
            (run linux_env [Activate, BeforeQuit, Activate] init)) =
     errors (run linux_env [Activate, BeforeQuit, Activate] init) @
       [UncaughtException ObjectDestroyed]"
proof -
  let ?st = "run linux_env [Activate, BeforeQuit, Activate] init"
  have d: "dead ?st = [True, False]" by (rule quit_reactivate_dead)
  then have "length (dead ?st) = 2" by simp
  then have len: "length (windows ?st) = 2" by simp
  have w: "wf linux_env ?st" by (rule wf_run)
  have stale: "isDestroyed ?st 0" using d by (simp add: isDestroyed_dead)
  have "listeners_of ''container-stopped-event'' (ipcMain ?st) =
        map ContainerStoppedListener [0..<length (windows ?st)]"
    by (simp only: wf_ipcMain [OF w] listeners_of_ipc)
  then have ls: "listeners_of ''container-stopped-event'' (ipcMain ?st) =
      [ContainerStoppedListener 0, ContainerStoppedListener 1]"
    by (simp add: len upt_rec)
  have "step linux_env (IpcMessage ''container-stopped-event'' [Str ''3f2a'']) ?st =
        ?st\<lparr>errors := errors ?st @ [UncaughtException ObjectDestroyed]\<rparr>"
    using w _ stale by (rule stale_listener_aborts) (simp add: len)
  with d ls show ?thesis by (simp add: dead_def del: step.simps)
qed

end
